theory Spec2Isabelle
  imports Main "HOL-Library.Word"
begin

section \<open>The storage model of \<^verbatim>\<open>mystl::vector\<close>\<close>

text \<open>
  The class template \<^verbatim>\<open>mystl::vector<T>\<close> of \<^verbatim>\<open>MySTL/vector.hpp\<close> keeps three raw
  pointers into one block obtained from \<^verbatim>\<open>std::allocator<T>\<close>.  The embedding keeps that
  picture:

  \<^item> a block is a list of slots, a slot being \<open>None\<close> (allocated, raw memory) or
    \<open>Some x\<close> (a constructed object of value \<open>x\<close>);
  \<^item> the free store is the list of all blocks ever handed out, indexed by their address;
    a released block is \<open>None\<close>, so a second release of one address is visible;
  \<^item> \<^verbatim>\<open>elem_\<close> is the address of the block (\<open>None\<close> for \<^verbatim>\<open>nullptr\<close>), and \<^verbatim>\<open>free_\<close>,
    \<^verbatim>\<open>last_\<close> are kept as their distances from \<^verbatim>\<open>elem_\<close> in elements (the code only
    ever moves them inside the block of \<^verbatim>\<open>elem_\<close>); an iterator is its distance from
    \<^verbatim>\<open>begin()\<close>, an \<open>int\<close> because a caller can pass one before \<^verbatim>\<open>begin()\<close>;
  \<^item> a member function takes the store and the object and returns an outcome: a normal
    return, a thrown exception (both with the store and the object as they are left), or
    undefined behaviour (touching memory outside a block, reading or destroying a raw
    slot, assigning to a raw slot, releasing a block twice);
  \<^item> what the code cannot know is a parameter: for which block sizes the allocator
    throws, for which values the copy constructor of \<^verbatim>\<open>T\<close> throws, and whether
    \<^verbatim>\<open>std::is_nothrow_move_constructible<T>\<close> holds.  Moves of \<^verbatim>\<open>T\<close> are taken not to
    throw and to carry the value over;
  \<^item> \<^verbatim>\<open>size_type\<close> is \<^verbatim>\<open>std::size_t\<close>, taken as 64 bits wide: arguments of that type are
    words, and the two places where the code computes with them (\<^verbatim>\<open>size() * EXPAND_RATE\<close>
    and \<^verbatim>\<open>size() - new_size\<close>) wrap around.  Distances between pointers are natural
    numbers.
\<close>

datatype error = out_of_range | length_error | bad_alloc | copy_failure

datatype ('r, 's) result = Returns 'r 's | Throws error 's | Undefined

type_synonym 'a block = "'a option list"

type_synonym 'a heap = "'a block option list"

type_synonym size_type = "64 word"

record vector =
  elem_ptr :: "nat option"
  free_ptr :: nat
  last_ptr :: nat

record 'a traits =
  alloc_fails :: "nat \<Rightarrow> bool"
  copy_throws :: "'a \<Rightarrow> bool"
  nothrow_move :: bool

definition FIRST_EXPAND_CAPACITY :: nat where
  "FIRST_EXPAND_CAPACITY = 10"

definition EXPAND_RATE :: size_type where
  "EXPAND_RATE = 2"

subsection \<open>The allocator and the raw storage primitives\<close>

definition block_at :: "'a heap \<Rightarrow> nat \<Rightarrow> 'a block option" where
  "block_at h p = (if p < length h then h ! p else None)"

text \<open>\<^verbatim>\<open>alloc_.allocate(n)\<close>: a fresh block of \<open>n\<close> raw slots, or \<^verbatim>\<open>std::bad_alloc\<close>.\<close>

definition allocate :: "'a traits \<Rightarrow> 'a heap \<Rightarrow> nat \<Rightarrow> (nat, 'a heap) result" where
  "allocate T h n =
     (if alloc_fails T n then Throws bad_alloc h
      else Returns (length h) (h @ [Some (replicate n None)]))"

text \<open>\<^verbatim>\<open>alloc_.deallocate(p, n)\<close>: \<open>p\<close> must be a block of \<open>n\<close> slots that is still allocated.\<close>

definition deallocate :: "'a heap \<Rightarrow> nat \<Rightarrow> nat \<Rightarrow> 'a heap option" where
  "deallocate h p n =
     (case block_at h p of
        None \<Rightarrow> None
      | Some b \<Rightarrow> if length b = n then Some (h[p := None]) else None)"

text \<open>The block \<^verbatim>\<open>elem_\<close> points to; no slot can be touched through a null or dangling pointer.\<close>

definition the_block :: "'a heap \<Rightarrow> vector \<Rightarrow> 'a block" where
  "the_block h v =
     (case elem_ptr v of
        None \<Rightarrow> []
      | Some p \<Rightarrow> (case block_at h p of None \<Rightarrow> [] | Some b \<Rightarrow> b))"

definition put_block :: "'a heap \<Rightarrow> vector \<Rightarrow> 'a block \<Rightarrow> 'a heap" where
  "put_block h v b =
     (case elem_ptr v of
        None \<Rightarrow> h
      | Some p \<Rightarrow> (case block_at h p of None \<Rightarrow> h | Some b0 \<Rightarrow> h[p := Some b]))"

text \<open>Reading \<^verbatim>\<open>elem_[i]\<close>: the object in slot \<open>i\<close>, if there is one.\<close>

definition read :: "'a block \<Rightarrow> nat \<Rightarrow> 'a option" where
  "read b i = (if i < length b then b ! i else None)"

text \<open>\<^verbatim>\<open>alloc_.construct(p, x)\<close> and placement new, \<^verbatim>\<open>alloc_.destroy(p)\<close>, and the
  assignment \<^verbatim>\<open>*p = x\<close> to a constructed object.\<close>

definition construct :: "'a block \<Rightarrow> nat \<Rightarrow> 'a \<Rightarrow> 'a block option" where
  "construct b i x = (if i < length b then Some (b[i := Some x]) else None)"

definition destroy :: "'a block \<Rightarrow> nat \<Rightarrow> 'a block option" where
  "destroy b i = (if i < length b \<and> b ! i \<noteq> None then Some (b[i := None]) else None)"

definition assign :: "'a block \<Rightarrow> nat \<Rightarrow> 'a \<Rightarrow> 'a block option" where
  "assign b i x = (if i < length b \<and> b ! i \<noteq> None then Some (b[i := Some x]) else None)"

text \<open>The loop of \<^verbatim>\<open>expand_capacity\<close> that move-constructs the objects \<open>src\<close> into the
  raw slots from \<open>new_free\<close> on, by placement new.\<close>

fun move_construct_all :: "'a block \<Rightarrow> 'a block \<Rightarrow> nat \<Rightarrow> (nat \<times> 'a block) option" where
  "move_construct_all [] dst new_free = Some (new_free, dst)"
| "move_construct_all (s # src) dst new_free =
     (case s of
        None \<Rightarrow> None
      | Some x \<Rightarrow>
          (case construct dst new_free x of
             None \<Rightarrow> None
           | Some dst' \<Rightarrow> move_construct_all src dst' (Suc new_free)))"

text \<open>\<^verbatim>\<open>destruct_elements(first, last)\<close>:
  \<^verbatim>\<open>for (auto iter = first; iter != last; ++iter) alloc_.destroy(iter);\<close>
  The loop only stops at \<open>lastp\<close>; started behind it, it runs off the block.\<close>

function destruct_elements :: "'a block \<Rightarrow> nat \<Rightarrow> nat \<Rightarrow> 'a block option" where
  "destruct_elements b first lastp =
     (if first = lastp then Some b
      else (case destroy b first of
              None \<Rightarrow> None
            | Some b' \<Rightarrow> destruct_elements b' (Suc first) lastp))"
  by pat_completeness auto
termination
  by (relation "measure (\<lambda>(b, first, lastp). length b - first)")
    (auto simp: destroy_def split: if_splits)

text \<open>
  \<^verbatim>\<open>std::uninitialized_copy(first, last, d_first)\<close> over the objects \<open>src\<close>, in its two
  parts.  The construction loop,
  \<^verbatim>\<open>for (; first != last; ++first, ++current) ::new (current) T(*first);\<close>
  copy-constructs into the slots from \<open>d_first\<close> on.  It stops at the first copy that
  throws, with the copies built so far still in their slots and \<open>current\<close> behind the last
  of them.
\<close>

fun copy_construct_loop ::
  "('a \<Rightarrow> bool) \<Rightarrow> 'a block \<Rightarrow> 'a block \<Rightarrow> nat \<Rightarrow> (unit, nat \<times> 'a block) result" where
  "copy_construct_loop ct [] dst current = Returns () (current, dst)"
| "copy_construct_loop ct (s # src) dst current =
     (case s of
        None \<Rightarrow> Undefined
      | Some x \<Rightarrow>
          if length dst \<le> current then Undefined
          else if ct x then Throws copy_failure (current, dst)
          else copy_construct_loop ct src (dst[current := Some x]) (Suc current))"

text \<open>
  When the loop has thrown, the handler of \<^verbatim>\<open>std::uninitialized_copy\<close> destroys the
  copies built so far, \<^verbatim>\<open>for (; d_first != current; ++d_first) d_first->~T();\<close> and
  passes the exception on.  Otherwise the end of the copies is returned.
\<close>

definition uninitialized_copy ::
  "('a \<Rightarrow> bool) \<Rightarrow> 'a block \<Rightarrow> 'a block \<Rightarrow> nat \<Rightarrow> (nat, 'a block) result" where
  "uninitialized_copy ct src dst d_first =
     (case copy_construct_loop ct src dst d_first of
        Undefined \<Rightarrow> Undefined
      | Returns u (current, dst') \<Rightarrow> Returns current dst'
      | Throws e (current, dst') \<Rightarrow>
          (case destruct_elements dst' d_first current of
             None \<Rightarrow> Undefined
           | Some dst'' \<Rightarrow> Throws e dst''))"

text \<open>\<^verbatim>\<open>std::move(first, last, d)\<close>, the algorithm:
  \<^verbatim>\<open>for (; first != last; ++first, ++d) *d = std::move(*first);\<close> returning \<open>d\<close>.\<close>

function std_move :: "'a block \<Rightarrow> nat \<Rightarrow> nat \<Rightarrow> nat \<Rightarrow> (nat \<times> 'a block) option" where
  "std_move b first lastp d =
     (if first = lastp then Some (d, b)
      else (case read b first of
              None \<Rightarrow> None
            | Some x \<Rightarrow>
                (case assign b d x of
                   None \<Rightarrow> None
                 | Some b' \<Rightarrow> std_move b' (Suc first) lastp (Suc d))))"
  by pat_completeness auto
termination
  by (relation "measure (\<lambda>(b, first, lastp, d). length b - first)")
    (auto simp: read_def assign_def split: if_splits)

text \<open>The shifting loop of \<^verbatim>\<open>emplace\<close>:
  \<^verbatim>\<open>for (auto iter = free_ - 2; iter != pos; --iter) *iter = std::move(*(iter - 1));\<close>\<close>

function emplace_shift :: "'a block \<Rightarrow> nat \<Rightarrow> nat \<Rightarrow> 'a block option" where
  "emplace_shift b iter pos =
     (if iter = pos then Some b
      else if iter = 0 then None
      else (case read b (iter - 1) of
              None \<Rightarrow> None
            | Some x \<Rightarrow>
                (case assign b iter x of
                   None \<Rightarrow> None
                 | Some b' \<Rightarrow> emplace_shift b' (iter - 1) pos)))"
  by pat_completeness auto
termination
  by (relation "measure (\<lambda>(b, iter, pos). iter)") auto

subsection \<open>Size, capacity and the private helpers\<close>

text \<open>\<^verbatim>\<open>size()\<close> is \<^verbatim>\<open>free_ - elem_\<close>, \<^verbatim>\<open>capacity()\<close> is \<^verbatim>\<open>last_ - elem_\<close>, and
  \<^verbatim>\<open>empty()\<close> is \<^verbatim>\<open>elem_ == free_\<close>.\<close>

definition size_v :: "vector \<Rightarrow> nat" where
  "size_v v = free_ptr v"

definition capacity :: "vector \<Rightarrow> nat" where
  "capacity v = last_ptr v"

definition empty_v :: "vector \<Rightarrow> bool" where
  "empty_v v = (free_ptr v = 0)"

text \<open>\<^verbatim>\<open>vector() noexcept = default\<close>: the three pointers are null.\<close>

definition vector_default :: vector where
  "vector_default = \<lparr>elem_ptr = None, free_ptr = 0, last_ptr = 0\<rparr>"

text \<open>\<^verbatim>\<open>clear_elements() noexcept\<close>: destroy the objects, release the block, null the
  pointers.  It cannot throw: \<open>None\<close> is undefined behaviour.\<close>

definition clear_elements :: "'a heap \<Rightarrow> vector \<Rightarrow> ('a heap \<times> vector) option" where
  "clear_elements h v =
     (case elem_ptr v of
        None \<Rightarrow> Some (h, v)
      | Some p \<Rightarrow>
          (case destruct_elements (the_block h v) 0 (free_ptr v) of
             None \<Rightarrow> None
           | Some b \<Rightarrow>
               (case deallocate (put_block h v b) p (capacity v) of
                  None \<Rightarrow> None
                | Some h' \<Rightarrow> Some (h', \<lparr>elem_ptr = None, free_ptr = 0, last_ptr = 0\<rparr>))))"

text \<open>\<^verbatim>\<open>expand_capacity(new_capacity)\<close>.  The objects \<^verbatim>\<open>[elem_, free_)\<close> are read from the
  old block; a range that leaves the block cannot be read.  When the copy throws, the
  handler releases the new block in the state \<^verbatim>\<open>std::uninitialized_copy\<close> has left it
  in.\<close>

definition live_range :: "'a heap \<Rightarrow> vector \<Rightarrow> 'a block option" where
  "live_range h v =
     (if free_ptr v \<le> length (the_block h v) then Some (take (free_ptr v) (the_block h v)) else None)"

definition expand_capacity ::
  "'a traits \<Rightarrow> 'a heap \<Rightarrow> vector \<Rightarrow> nat \<Rightarrow> (unit, 'a heap \<times> vector) result" where
  "expand_capacity T h v new_capacity =
     (if new_capacity \<le> capacity v then Returns () (h, v)
      else
        (case allocate T h new_capacity of
           Throws e h' \<Rightarrow> Throws e (h', v)
         | Undefined \<Rightarrow> Undefined
         | Returns new_elem h1 \<Rightarrow>
             (case live_range h v of
                None \<Rightarrow> Undefined
              | Some src \<Rightarrow>
                  (case (if nothrow_move T
                         then (case move_construct_all src (replicate new_capacity None) 0 of
                                 None \<Rightarrow> Undefined
                               | Some (new_free, b) \<Rightarrow> Returns new_free b)
                         else uninitialized_copy (copy_throws T) src (replicate new_capacity None) 0) of
                     Undefined \<Rightarrow> Undefined
                   | Throws e b \<Rightarrow>
                       (case deallocate (h1[new_elem := Some b]) new_elem new_capacity of
                          None \<Rightarrow> Undefined
                        | Some h2 \<Rightarrow> Throws e (h2, v))
                   | Returns new_free b \<Rightarrow>
                       (case clear_elements (h1[new_elem := Some b]) v of
                          None \<Rightarrow> Undefined
                        | Some (h2, v2) \<Rightarrow>
                            Returns () (h2, \<lparr>elem_ptr = Some new_elem, free_ptr = new_free,
                                             last_ptr = new_capacity\<rparr>))))))"

text \<open>\<^verbatim>\<open>check_expand_capacity()\<close>; \<^verbatim>\<open>size() * EXPAND_RATE\<close> is a product of
  \<^verbatim>\<open>size_type\<close> values and wraps around.\<close>

definition check_expand_capacity ::
  "'a traits \<Rightarrow> 'a heap \<Rightarrow> vector \<Rightarrow> (unit, 'a heap \<times> vector) result" where
  "check_expand_capacity T h v =
     (if free_ptr v = last_ptr v
      then expand_capacity T h v
             (if empty_v v then FIRST_EXPAND_CAPACITY
              else unat (word_of_nat (size_v v) * EXPAND_RATE))
      else Returns () (h, v))"

text \<open>\<^verbatim>\<open>reserve(n)\<close> is \<^verbatim>\<open>expand_capacity(n)\<close>.\<close>

definition reserve ::
  "'a traits \<Rightarrow> 'a heap \<Rightarrow> vector \<Rightarrow> size_type \<Rightarrow> (unit, 'a heap \<times> vector) result" where
  "reserve T h v n = expand_capacity T h v (unat n)"

subsection \<open>The public member functions\<close>

text \<open>\<^verbatim>\<open>push_back(const value_type &value)\<close>: in \<^verbatim>\<open>alloc_.construct(free_++, value)\<close> the
  increment of \<^verbatim>\<open>free_\<close> is done before the copy constructor runs, so it stays when the
  copy throws.\<close>

definition push_back ::
  "'a traits \<Rightarrow> 'a heap \<Rightarrow> vector \<Rightarrow> 'a \<Rightarrow> (unit, 'a heap \<times> vector) result" where
  "push_back T h v x =
     (case check_expand_capacity T h v of
        Throws e s \<Rightarrow> Throws e s
      | Undefined \<Rightarrow> Undefined
      | Returns u (h1, v1) \<Rightarrow>
          if copy_throws T x then Throws copy_failure (h1, v1\<lparr>free_ptr := Suc (free_ptr v1)\<rparr>)
          else (case construct (the_block h1 v1) (free_ptr v1) x of
                  None \<Rightarrow> Undefined
                | Some b \<Rightarrow>
                    Returns () (put_block h1 v1 b, v1\<lparr>free_ptr := Suc (free_ptr v1)\<rparr>)))"

text \<open>\<^verbatim>\<open>push_back(value_type &&value)\<close>: placement new of the moved value, then
  \<^verbatim>\<open>++free_\<close>.\<close>

definition push_back_move ::
  "'a traits \<Rightarrow> 'a heap \<Rightarrow> vector \<Rightarrow> 'a \<Rightarrow> (unit, 'a heap \<times> vector) result" where
  "push_back_move T h v x =
     (case check_expand_capacity T h v of
        Throws e s \<Rightarrow> Throws e s
      | Undefined \<Rightarrow> Undefined
      | Returns u (h1, v1) \<Rightarrow>
          (case construct (the_block h1 v1) (free_ptr v1) x of
             None \<Rightarrow> Undefined
           | Some b \<Rightarrow> Returns () (put_block h1 v1 b, v1\<lparr>free_ptr := Suc (free_ptr v1)\<rparr>)))"

text \<open>\<^verbatim>\<open>pop_back()\<close>: the \<^verbatim>\<open>throw\<close> follows the \<^verbatim>\<open>if\<close> statement, it is not its
  \<^verbatim>\<open>else\<close> branch.\<close>

definition pop_back :: "'a heap \<Rightarrow> vector \<Rightarrow> (unit, 'a heap \<times> vector) result" where
  "pop_back h v =
     (if \<not> empty_v v
      then (case destroy (the_block h v) (free_ptr v - 1) of
              None \<Rightarrow> Undefined
            | Some b \<Rightarrow> Throws length_error (put_block h v b, v\<lparr>free_ptr := free_ptr v - 1\<rparr>))
      else Throws length_error (h, v))"

text \<open>\<^verbatim>\<open>clear() noexcept\<close>: \<^verbatim>\<open>destruct_elements(elem_, free_); free_ = elem_;\<close>\<close>

definition clear :: "'a heap \<Rightarrow> vector \<Rightarrow> ('a heap \<times> vector) option" where
  "clear h v =
     (case destruct_elements (the_block h v) 0 (free_ptr v) of
        None \<Rightarrow> None
      | Some b \<Rightarrow> Some (put_block h v b, v\<lparr>free_ptr := 0\<rparr>))"

text \<open>The accessors return a reference; the model returns the object referred to, and
  a reference to a slot that holds none is undefined behaviour.  \<^verbatim>\<open>operator[]\<close> and
  \<^verbatim>\<open>at\<close> test \<^verbatim>\<open>n < size()\<close>; \<^verbatim>\<open>front\<close> and \<^verbatim>\<open>back\<close> test \<^verbatim>\<open>elem_\<close> against null.
  The const \<^verbatim>\<open>operator[]\<close> and the const \<^verbatim>\<open>front\<close> forward to the non-const ones.  The
  const \<^verbatim>\<open>at(size_type n)\<close> has the body
  \<^verbatim>\<open>return const_cast<vector *>(this)->at();\<close>, a call of \<^verbatim>\<open>at\<close> without its argument:
  no such overload exists, the member cannot be instantiated and has no behaviour to
  model.\<close>

definition operator_index :: "'a heap \<Rightarrow> vector \<Rightarrow> size_type \<Rightarrow> ('a, unit) result" where
  "operator_index h v n =
     (if unat n < size_v v
      then (case read (the_block h v) (unat n) of
              None \<Rightarrow> Undefined
            | Some x \<Rightarrow> Returns x ())
      else Throws out_of_range ())"

definition operator_index_const :: "'a heap \<Rightarrow> vector \<Rightarrow> size_type \<Rightarrow> ('a, unit) result" where
  "operator_index_const h v n = operator_index h v n"

definition at :: "'a heap \<Rightarrow> vector \<Rightarrow> size_type \<Rightarrow> ('a, unit) result" where
  "at h v n =
     (if unat n < size_v v
      then (case read (the_block h v) (unat n) of
              None \<Rightarrow> Undefined
            | Some x \<Rightarrow> Returns x ())
      else Throws out_of_range ())"

definition front :: "'a heap \<Rightarrow> vector \<Rightarrow> ('a, unit) result" where
  "front h v =
     (case elem_ptr v of
        None \<Rightarrow> Throws length_error ()
      | Some p \<Rightarrow>
          (case read (the_block h v) 0 of
             None \<Rightarrow> Undefined
           | Some x \<Rightarrow> Returns x ()))"

definition front_const :: "'a heap \<Rightarrow> vector \<Rightarrow> ('a, unit) result" where
  "front_const h v = front h v"

text \<open>\<^verbatim>\<open>back()\<close> returns \<^verbatim>\<open>*rbegin()\<close>, the object before \<^verbatim>\<open>free_\<close>.\<close>

definition back_v :: "'a heap \<Rightarrow> vector \<Rightarrow> ('a, unit) result" where
  "back_v h v =
     (case elem_ptr v of
        None \<Rightarrow> Throws length_error ()
      | Some p \<Rightarrow>
          (case (if free_ptr v = 0 then None else read (the_block h v) (free_ptr v - 1)) of
             None \<Rightarrow> Undefined
           | Some x \<Rightarrow> Returns x ()))"

text \<open>\<^verbatim>\<open>emplace(position, args...)\<close>, with \<open>x\<close> the object built from the arguments;
  \<^verbatim>\<open>cbegin()\<close> is distance 0 and \<^verbatim>\<open>cend()\<close> is distance \<^verbatim>\<open>free_ - elem_\<close>.\<close>

definition emplace ::
  "'a traits \<Rightarrow> 'a heap \<Rightarrow> vector \<Rightarrow> int \<Rightarrow> 'a \<Rightarrow> (int, 'a heap \<times> vector) result" where
  "emplace T h v position x =
     (if position < 0 \<or> position > int (free_ptr v) then Throws out_of_range (h, v)
      else
        (case check_expand_capacity T h v of
           Throws e s \<Rightarrow> Throws e s
         | Undefined \<Rightarrow> Undefined
         | Returns u (h1, v1) \<Rightarrow>
             let pos = nat position; b = the_block h1 v1 in
             if pos = free_ptr v1
             then (case construct b (free_ptr v1) x of
                     None \<Rightarrow> Undefined
                   | Some b' \<Rightarrow>
                       Returns (int (free_ptr v1))
                         (put_block h1 v1 b', v1\<lparr>free_ptr := Suc (free_ptr v1)\<rparr>))
             else
               (case (if free_ptr v1 = 0 then None else read b (free_ptr v1 - 1)) of
                  None \<Rightarrow> Undefined
                | Some y \<Rightarrow>
                    (case construct b (free_ptr v1) y of
                       None \<Rightarrow> Undefined
                     | Some b1 \<Rightarrow>
                         (case emplace_shift b1 (Suc (free_ptr v1) - 2) pos of
                            None \<Rightarrow> Undefined
                          | Some b2 \<Rightarrow>
                              (case assign b2 pos x of
                                 None \<Rightarrow> Undefined
                               | Some b3 \<Rightarrow>
                                   Returns (int pos)
                                     (put_block h1 v1 b3,
                                      v1\<lparr>free_ptr := Suc (free_ptr v1)\<rparr>)))))))"

text \<open>\<^verbatim>\<open>insert(position, value_type &&value)\<close> is \<^verbatim>\<open>emplace\<close> of the moved value;
  \<^verbatim>\<open>insert(position, const value_type &value)\<close> copies the value first.\<close>

definition insert_move ::
  "'a traits \<Rightarrow> 'a heap \<Rightarrow> vector \<Rightarrow> int \<Rightarrow> 'a \<Rightarrow> (int, 'a heap \<times> vector) result" where
  "insert_move T h v position x = emplace T h v position x"

definition insert_v ::
  "'a traits \<Rightarrow> 'a heap \<Rightarrow> vector \<Rightarrow> int \<Rightarrow> 'a \<Rightarrow> (int, 'a heap \<times> vector) result" where
  "insert_v T h v position x =
     (if copy_throws T x then Throws copy_failure (h, v)
      else insert_move T h v position x)"

text \<open>\<^verbatim>\<open>insert(position, n, value)\<close>:
  \<^verbatim>\<open>for (size_type i = 0; i < n; ++i) pos = insert(pos, value);\<close>\<close>

fun insert_n_loop ::
  "'a traits \<Rightarrow> nat \<Rightarrow> 'a \<Rightarrow> 'a heap \<Rightarrow> vector \<Rightarrow> int \<Rightarrow> (int, 'a heap \<times> vector) result" where
  "insert_n_loop T 0 x h v pos = Returns pos (h, v)"
| "insert_n_loop T (Suc n) x h v pos =
     (case insert_v T h v pos x of
        Returns pos' (h', v') \<Rightarrow> insert_n_loop T n x h' v' pos'
      | Throws e s \<Rightarrow> Throws e s
      | Undefined \<Rightarrow> Undefined)"

definition insert_n ::
  "'a traits \<Rightarrow> 'a heap \<Rightarrow> vector \<Rightarrow> int \<Rightarrow> size_type \<Rightarrow> 'a \<Rightarrow> (int, 'a heap \<times> vector) result" where
  "insert_n T h v position n x =
     (if n = 0 then Returns position (h, v)
      else insert_n_loop T (unat n) x h v position)"

text \<open>\<^verbatim>\<open>erase(position)\<close>.\<close>

definition erase :: "'a heap \<Rightarrow> vector \<Rightarrow> int \<Rightarrow> (int, 'a heap \<times> vector) result" where
  "erase h v position =
     (if position < 0 \<or> position \<ge> int (free_ptr v) then Throws out_of_range (h, v)
      else
        let pos = nat position in
        (case (if pos + 1 \<noteq> free_ptr v
               then std_move (the_block h v) (pos + 1) (free_ptr v) pos
               else Some (pos, the_block h v)) of
           None \<Rightarrow> Undefined
         | Some (d, b1) \<Rightarrow>
             (case destroy b1 (free_ptr v - 1) of
                None \<Rightarrow> Undefined
              | Some b2 \<Rightarrow>
                  Returns (int pos) (put_block h v b2, v\<lparr>free_ptr := free_ptr v - 1\<rparr>))))"

text \<open>\<^verbatim>\<open>erase(first, last)\<close>: the test is
  \<^verbatim>\<open>!(first >= cbegin() && last <= cend())\<close>.  A \<open>lastp\<close> before the block makes
  \<^verbatim>\<open>std::move\<close> read before the block.\<close>

definition erase_range ::
  "'a heap \<Rightarrow> vector \<Rightarrow> int \<Rightarrow> int \<Rightarrow> (int, 'a heap \<times> vector) result" where
  "erase_range h v first lastp =
     (if \<not> (first \<ge> 0 \<and> lastp \<le> int (free_ptr v)) then Throws out_of_range (h, v)
      else if lastp < 0 then Undefined
      else
        (case std_move (the_block h v) (nat lastp) (free_ptr v) (nat first) of
           None \<Rightarrow> Undefined
         | Some (iter, b1) \<Rightarrow>
             (case destruct_elements b1 iter (free_ptr v) of
                None \<Rightarrow> Undefined
              | Some b2 \<Rightarrow> Returns first (put_block h v b2, v\<lparr>free_ptr := iter\<rparr>))))"

text \<open>\<^verbatim>\<open>resize(new_size, value)\<close>: the count handed to \<^verbatim>\<open>insert\<close> is
  \<^verbatim>\<open>size() - new_size\<close>, a difference of \<^verbatim>\<open>size_type\<close> values.\<close>

definition resize ::
  "'a traits \<Rightarrow> 'a heap \<Rightarrow> vector \<Rightarrow> size_type \<Rightarrow> 'a \<Rightarrow> (unit, 'a heap \<times> vector) result" where
  "resize T h v new_size x =
     (if unat new_size < size_v v
      then (case erase_range h v (int (unat new_size)) (int (free_ptr v)) of
              Returns it s \<Rightarrow> Returns () s
            | Throws e s \<Rightarrow> Throws e s
            | Undefined \<Rightarrow> Undefined)
      else if unat new_size > size_v v
      then (case insert_n T h v (int (free_ptr v)) (word_of_nat (size_v v) - new_size) x of
              Returns it s \<Rightarrow> Returns () s
            | Throws e s \<Rightarrow> Throws e s
            | Undefined \<Rightarrow> Undefined)
      else Returns () (h, v))"

text \<open>\<^verbatim>\<open>swap(vector &other) noexcept\<close> exchanges the three pointers.\<close>

definition swap_v :: "vector \<Rightarrow> vector \<Rightarrow> vector \<times> vector" where
  "swap_v this other =
     (this\<lparr>elem_ptr := elem_ptr other, free_ptr := free_ptr other, last_ptr := last_ptr other\<rparr>,
      other\<lparr>elem_ptr := elem_ptr this, free_ptr := free_ptr this, last_ptr := last_ptr this\<rparr>)"

text \<open>\<^verbatim>\<open>create_elements(first, last)\<close> over the source objects \<open>src\<close>, and the copy
  constructor, which runs it on \<^verbatim>\<open>[other.cbegin(), other.cend())\<close>.\<close>

definition create_elements_range ::
  "'a traits \<Rightarrow> 'a heap \<Rightarrow> vector \<Rightarrow> 'a block \<Rightarrow> (unit, 'a heap \<times> vector) result" where
  "create_elements_range T h v src =
     (if src = [] then Returns () (h, v)
      else
        (case allocate T h (length src) of
           Throws e h' \<Rightarrow> Throws e (h', v)
         | Undefined \<Rightarrow> Undefined
         | Returns new_elem h1 \<Rightarrow>
             (case uninitialized_copy (copy_throws T) src (replicate (length src) None) 0 of
                Undefined \<Rightarrow> Undefined
              | Throws e b \<Rightarrow>
                  (case deallocate (h1[new_elem := Some b]) new_elem (length src) of
                     None \<Rightarrow> Undefined
                   | Some h2 \<Rightarrow> Throws e (h2, v))
              | Returns new_free b \<Rightarrow>
                  Returns () (h1[new_elem := Some b],
                    v\<lparr>elem_ptr := Some new_elem, free_ptr := new_free, last_ptr := new_free\<rparr>))))"

definition vector_copy ::
  "'a traits \<Rightarrow> 'a heap \<Rightarrow> vector \<Rightarrow> (unit, 'a heap \<times> vector) result" where
  "vector_copy T h other =
     (case live_range h other of
        None \<Rightarrow> Undefined
      | Some src \<Rightarrow> create_elements_range T h vector_default src)"

text \<open>\<^verbatim>\<open>operator=(const vector &other)\<close>: \<^verbatim>\<open>auto copy = other; swap(copy); return *this;\<close>
  and the destructor of \<^verbatim>\<open>copy\<close>, which is \<^verbatim>\<open>clear_elements()\<close>, at the end of the
  scope.  For a self-assignment \<open>other\<close> is the object \<open>this\<close> itself; it is only read
  before \<open>this\<close> is written.\<close>

definition copy_assign ::
  "'a traits \<Rightarrow> 'a heap \<Rightarrow> vector \<Rightarrow> vector \<Rightarrow> (unit, 'a heap \<times> vector) result" where
  "copy_assign T h this other =
     (case vector_copy T h other of
        Throws e (h1, c) \<Rightarrow> Throws e (h1, this)
      | Undefined \<Rightarrow> Undefined
      | Returns u (h1, c) \<Rightarrow>
          (case swap_v this c of
             (this', c') \<Rightarrow>
               (case clear_elements h1 c' of
                  None \<Rightarrow> Undefined
                | Some (h2, c2) \<Rightarrow> Returns () (h2, this'))))"

subsection \<open>Well-formed containers and their contents\<close>

text \<open>The data invariant of the class: the block of \<^verbatim>\<open>elem_\<close> is allocated and has
  \<^verbatim>\<open>last_ - elem_\<close> slots, the slots before \<^verbatim>\<open>free_\<close> hold objects and the others are raw;
  a null \<^verbatim>\<open>elem_\<close> goes with null \<^verbatim>\<open>free_\<close> and \<^verbatim>\<open>last_\<close>.\<close>

definition well_formed :: "'a heap \<Rightarrow> vector \<Rightarrow> bool" where
  "well_formed h v =
     (case elem_ptr v of
        None \<Rightarrow> free_ptr v = 0 \<and> last_ptr v = 0
      | Some p \<Rightarrow>
          (case block_at h p of
             None \<Rightarrow> False
           | Some b \<Rightarrow>
               length b = last_ptr v \<and> free_ptr v \<le> last_ptr v \<and>
               list_all (\<lambda>s. s \<noteq> None) (take (free_ptr v) b) \<and>
               list_all (\<lambda>s. s = None) (drop (free_ptr v) b)))"

definition contents :: "'a heap \<Rightarrow> vector \<Rightarrow> 'a list" where
  "contents h v = map the (take (free_ptr v) (the_block h v))"

subsection \<open>Notions used to state the properties\<close>

text \<open>The store after the block at address \<open>a\<close>, if any, has been given back.\<close>

definition released :: "'a heap \<Rightarrow> nat option \<Rightarrow> 'a heap" where
  "released h a = (case a of None \<Rightarrow> h | Some p \<Rightarrow> h[p := None])"

text \<open>A sequence of \<^verbatim>\<open>push_back\<close> calls, one for each element of the list in turn; it
  ends with the first call that does not return.\<close>

fun push_back_all ::
  "'a traits \<Rightarrow> 'a list \<Rightarrow> 'a heap \<Rightarrow> vector \<Rightarrow> (unit, 'a heap \<times> vector) result" where
  "push_back_all T [] h v = Returns () (h, v)"
| "push_back_all T (x # xs) h v =
     (case push_back T h v x of
        Returns u (h', v') \<Rightarrow> push_back_all T xs h' v'
      | Throws e s \<Rightarrow> Throws e s
      | Undefined \<Rightarrow> Undefined)"

text \<open>When making room for one more element goes through: there is room, or the
  container is full, the doubled size still fits \<^verbatim>\<open>size_type\<close> (here: is below
  \<open>2 ^ 64\<close>), the allocator delivers the new block, and moving or copying the elements
  into it does not throw.\<close>

definition can_make_room :: "'a traits \<Rightarrow> 'a heap \<Rightarrow> vector \<Rightarrow> bool" where
  "can_make_room T h v \<longleftrightarrow>
     (free_ptr v = last_ptr v \<longrightarrow>
        size_v v < 2 ^ 63 \<and>
        \<not> alloc_fails T (if size_v v = 0 then 10 else 2 * size_v v) \<and>
        (nothrow_move T \<or> (\<forall>x\<in>set (contents h v). \<not> copy_throws T x)))"

text \<open>The capacities of the spec, 0, 10, 20, 40, ..., as a function of the number of
  appends: the capacity changes exactly when an append finds it used up, from 0 to 10 and
  from then on to twice its value.\<close>

fun capacity_after :: "nat \<Rightarrow> nat" where
  "capacity_after 0 = 0"
| "capacity_after (Suc n) =
     (if capacity_after n = n then (if n = 0 then 10 else 2 * n) else capacity_after n)"

text \<open>The elements of a sequence that are copied before the first one whose copy
  throws.\<close>

definition copied_before_throw :: "'a traits \<Rightarrow> 'a list \<Rightarrow> 'a list" where
  "copied_before_throw T xs = takeWhile (\<lambda>x. \<not> copy_throws T x) xs"

text \<open>The slots of a block from \<open>f\<close> on hold no object.\<close>

definition raw_from :: "'a block \<Rightarrow> nat \<Rightarrow> bool" where
  "raw_from b f \<longleftrightarrow> (\<forall>i. f \<le> i \<and> i < length b \<longrightarrow> b ! i = None)"

subsection \<open>Example element types and containers\<close>

text \<open>Three element types, all with \<^verbatim>\<open>int\<close> values: \<open>plain\<close>, where the allocator always
  delivers and nothing throws; \<open>fragile\<close>, whose copy constructor throws for the value 2
  and whose move constructor is not declared \<^verbatim>\<open>noexcept\<close>; and \<open>small\<close>, where the
  allocator has no block of more than 10 elements.\<close>

definition plain :: "int traits" where
  "plain = \<lparr>alloc_fails = (\<lambda>n. False), copy_throws = (\<lambda>x. False), nothrow_move = True\<rparr>"

definition fragile :: "int traits" where
  "fragile = \<lparr>alloc_fails = (\<lambda>n. False), copy_throws = (\<lambda>x. x = 2), nothrow_move = False\<rparr>"

definition small :: "int traits" where
  "small = \<lparr>alloc_fails = (\<lambda>n. 10 < n), copy_throws = (\<lambda>x. False), nothrow_move = True\<rparr>"

text \<open>The container after \<^verbatim>\<open>push_back(1)\<close> on a default-constructed one; after
  \<^verbatim>\<open>push_back(2)\<close> and \<^verbatim>\<open>push_back(3)\<close> more; and the \<open>[9, 2, 3]\<close> of the spec's
  scenario, which is \<open>[1, 2, 3]\<close> after \<^verbatim>\<open>insert(begin() + 1, 9)\<close> and
  \<^verbatim>\<open>erase(begin())\<close>.\<close>

definition h1 :: "int heap" where
  "h1 = [Some (Some 1 # replicate 9 None)]"

definition v1 :: vector where
  "v1 = \<lparr>elem_ptr = Some 0, free_ptr = 1, last_ptr = 10\<rparr>"

definition h123 :: "int heap" where
  "h123 = [Some ([Some 1, Some 2, Some 3] @ replicate 7 None)]"

definition v123 :: vector where
  "v123 = \<lparr>elem_ptr = Some 0, free_ptr = 3, last_ptr = 10\<rparr>"

definition h923 :: "int heap" where
  "h923 = [Some ([Some 9, Some 2, Some 3] @ replicate 7 None)]"

definition v923 :: vector where
  "v923 = \<lparr>elem_ptr = Some 0, free_ptr = 3, last_ptr = 10\<rparr>"

section \<open>The loops over a block\<close>

declare destruct_elements.simps [simp del]
declare std_move.simps [simp del]
declare emplace_shift.simps [simp del]

lemma take_Suc_update: "i < length b \<Longrightarrow> take (Suc i) (b[i := x]) = take i b @ [x]"
  by (simp add: take_Suc_conv_app_nth)

lemma destruct_elements_live:
  "first \<le> lastp \<Longrightarrow> lastp \<le> length b \<Longrightarrow> (\<forall>i. first \<le> i \<and> i < lastp \<longrightarrow> b ! i \<noteq> None) \<Longrightarrow>
   destruct_elements b first lastp = Some (take first b @ replicate (lastp - first) None @ drop lastp b)"
proof (induction b first lastp rule: destruct_elements.induct)
  case (1 b first lastp)
  show ?case
  proof (cases "first = lastp")
    case True
    then show ?thesis by (simp add: destruct_elements.simps)
  next
    case False
    with "1.prems" have lt: "first < lastp" and inb: "first < length b" and live: "b ! first \<noteq> None"
      by auto
    have d: "destroy b first = Some (b[first := None])"
      using inb live by (simp add: destroy_def)
    have ih: "destruct_elements (b[first := None]) (Suc first) lastp =
        Some (take (Suc first) (b[first := None]) @ replicate (lastp - Suc first) None @ drop lastp (b[first := None]))"
      using "1.IH"[OF False d] "1.prems" lt by auto
    have r: "replicate (lastp - first) None = (None :: 'a option) # replicate (lastp - Suc first) None"
      using lt by (metis Suc_diff_Suc replicate_Suc)
    show ?thesis
      using False d ih lt inb
      by (subst destruct_elements.simps) (simp add: take_Suc_update r)
  qed
qed

lemma copy_construct_loop_ok:
  "\<forall>x\<in>set xs. \<not> ct x \<Longrightarrow> d + length xs \<le> length dst \<Longrightarrow>
   copy_construct_loop ct (map Some xs) dst d =
     Returns () (d + length xs, take d dst @ map Some xs @ drop (d + length xs) dst)"
proof (induction xs arbitrary: dst d)
  case Nil
  then show ?case by simp
next
  case (Cons x xs)
  have "copy_construct_loop ct (map Some xs) (dst[d := Some x]) (Suc d) =
      Returns () (Suc d + length xs,
        take (Suc d) (dst[d := Some x]) @ map Some xs @ drop (Suc d + length xs) (dst[d := Some x]))"
    using Cons.prems by (intro Cons.IH) auto
  then show ?case using Cons.prems by (simp add: take_Suc_update)
qed

lemma copy_construct_loop_stops:
  "\<exists>x\<in>set xs. ct x \<Longrightarrow> d + length xs \<le> length dst \<Longrightarrow>
   copy_construct_loop ct (map Some xs) dst d =
     Throws copy_failure (d + length (takeWhile (\<lambda>x. \<not> ct x) xs),
       take d dst @ map Some (takeWhile (\<lambda>x. \<not> ct x) xs) @
       drop (d + length (takeWhile (\<lambda>x. \<not> ct x) xs)) dst)"
proof (induction xs arbitrary: dst d)
  case Nil
  then show ?case by simp
next
  case (Cons x xs)
  show ?case
  proof (cases "ct x")
    case True
    then show ?thesis using Cons.prems by simp
  next
    case False
    with Cons.prems have ex: "\<exists>x\<in>set xs. ct x" by auto
    define ys where "ys = takeWhile (\<lambda>x. \<not> ct x) xs"
    have "copy_construct_loop ct (map Some xs) (dst[d := Some x]) (Suc d) =
        Throws copy_failure (Suc d + length ys,
          take (Suc d) (dst[d := Some x]) @ map Some ys @ drop (Suc d + length ys) (dst[d := Some x]))"
      unfolding ys_def using Cons.prems ex by (intro Cons.IH) auto
    then show ?thesis using False Cons.prems by (simp add: take_Suc_update ys_def)
  qed
qed

lemma copy_construct_loop_end:
  "copy_construct_loop ct src dst d = Returns u (n, b) \<Longrightarrow> n = d + length src"
proof (induction src arbitrary: dst d)
  case Nil
  then show ?case by simp
next
  case (Cons s src)
  from Cons.prems obtain x where s: "s = Some x" by (cases s) auto
  from Cons.prems s have "copy_construct_loop ct src (dst[d := Some x]) (Suc d) = Returns u (n, b)"
    by (auto split: if_splits)
  from Cons.IH[OF this] show ?case by simp
qed

lemma raw_part_same:
  assumes "d + k \<le> length dst" "\<forall>i. d \<le> i \<and> i < length dst \<longrightarrow> dst ! i = None"
  shows "take d dst @ replicate k None @ drop (d + k) dst = dst"
proof -
  define A where "A = take d dst"
  define R where "R = replicate k (None :: 'a option)"
  define D where "D = drop (d + k) dst"
  have lA: "length A = d" and lR: "length R = k" and lD: "length D = length dst - (d + k)"
    using assms(1) by (simp_all add: A_def R_def D_def)
  have "A @ R @ D = dst"
  proof (rule nth_equalityI)
    show "length (A @ R @ D) = length dst" using assms(1) by (simp add: lA lR lD)
  next
    fix i
    assume "i < length (A @ R @ D)"
    then have i: "i < length dst" using assms(1) by (simp add: lA lR lD)
    show "(A @ R @ D) ! i = dst ! i"
    proof (cases "i < d")
      case True
      then have "(A @ R @ D) ! i = A ! i" by (simp add: nth_append lA)
      also have "\<dots> = dst ! i" using True by (simp add: A_def)
      finally show ?thesis .
    next
      case False
      then have n: "dst ! i = None" using assms(2) i by simp
      show ?thesis
      proof (cases "i < d + k")
        case True
        with False have ik: "i - d < k" by arith
        have "(A @ R @ D) ! i = R ! (i - d)" using False ik by (simp add: nth_append lA lR)
        also have "\<dots> = None" using ik by (simp add: R_def)
        finally show ?thesis using n by simp
      next
        case ge: False
        have nk: "\<not> i - d < k" and ix: "d + k + (i - d - k) = i" using False ge by arith+
        have "(A @ R @ D) ! i = D ! (i - d - k)" using False nk by (simp add: nth_append lA lR)
        also have "\<dots> = dst ! (d + k + (i - d - k))" using assms(1) by (simp add: D_def)
        finally show ?thesis by (simp only: ix)
      qed
    qed
  qed
  then show ?thesis by (simp add: A_def R_def D_def)
qed

lemma destroy_copies:
  assumes "d + length ys \<le> length dst" "\<forall>i. d \<le> i \<and> i < length dst \<longrightarrow> dst ! i = None"
  shows "destruct_elements (take d dst @ map Some ys @ drop (d + length ys) dst) d (d + length ys) = Some dst"
proof -
  define k where "k = length ys"
  define b where "b = take d dst @ map Some ys @ drop (d + k) dst"
  have lb: "length b = length dst" using assms(1) by (simp add: b_def k_def)
  have live: "\<forall>i. d \<le> i \<and> i < d + k \<longrightarrow> b ! i \<noteq> None"
    using assms(1) by (auto simp: b_def k_def nth_append)
  have t: "take d b = take d dst" using assms(1) by (simp add: b_def k_def)
  have dr: "drop (d + k) b = drop (d + k) dst" using assms(1) by (simp add: b_def k_def)
  have "destruct_elements b d (d + k) = Some (take d b @ replicate (d + k - d) None @ drop (d + k) b)"
    using assms(1) lb live by (intro destruct_elements_live) (simp_all add: k_def)
  also have "\<dots> = Some (take d dst @ replicate k None @ drop (d + k) dst)"
    by (simp add: t dr)
  also have "\<dots> = Some dst"
    using raw_part_same[of d k dst] assms by (simp add: k_def)
  finally show ?thesis by (simp add: b_def k_def)
qed

lemma uninitialized_copy_ok:
  "\<forall>x\<in>set xs. \<not> ct x \<Longrightarrow> d + length xs \<le> length dst \<Longrightarrow>
   uninitialized_copy ct (map Some xs) dst d =
     Returns (d + length xs) (take d dst @ map Some xs @ drop (d + length xs) dst)"
  by (simp add: uninitialized_copy_def copy_construct_loop_ok)

lemma uninitialized_copy_throw:
  assumes "\<exists>x\<in>set xs. ct x" "d + length xs \<le> length dst"
    "\<forall>i. d \<le> i \<and> i < length dst \<longrightarrow> dst ! i = None"
  shows "uninitialized_copy ct (map Some xs) dst d = Throws copy_failure dst"
proof -
  define ys where "ys = takeWhile (\<lambda>x. \<not> ct x) xs"
  have "length ys \<le> length xs" by (simp add: ys_def length_takeWhile_le)
  then have le: "d + length ys \<le> length dst" using assms(2) by simp
  have "copy_construct_loop ct (map Some xs) dst d =
      Throws copy_failure (d + length ys, take d dst @ map Some ys @ drop (d + length ys) dst)"
    unfolding ys_def using assms(1,2) by (rule copy_construct_loop_stops)
  then show ?thesis
    by (simp add: uninitialized_copy_def destroy_copies[OF le assms(3)])
qed

lemma move_construct_all_ok:
  "d + length xs \<le> length dst \<Longrightarrow>
   move_construct_all (map Some xs) dst d =
     Some (d + length xs, take d dst @ map Some xs @ drop (d + length xs) dst)"
proof (induction xs arbitrary: dst d)
  case Nil
  then show ?case by simp
next
  case (Cons x xs)
  have "move_construct_all (map Some xs) (dst[d := Some x]) (Suc d) =
      Some (Suc d + length xs, take (Suc d) (dst[d := Some x]) @ map Some xs @ drop (Suc d + length xs) (dst[d := Some x]))"
    using Cons.prems by (intro Cons.IH) auto
  then show ?case using Cons.prems by (simp add: take_Suc_update construct_def)
qed

lemma std_move_forward:
  "d \<le> first \<Longrightarrow> first \<le> lastp \<Longrightarrow> lastp \<le> length b \<Longrightarrow> (\<forall>i. d \<le> i \<and> i < lastp \<longrightarrow> b ! i \<noteq> None) \<Longrightarrow>
   \<exists>b'. std_move b first lastp d = Some (d + (lastp - first), b') \<and> length b' = length b \<and>
     (\<forall>i<length b. b' ! i = (if d \<le> i \<and> i < d + (lastp - first) then b ! (i + (first - d)) else b ! i))"
proof (induction b first lastp d rule: std_move.induct)
  case (1 b first lastp d)
  show ?case
  proof (cases "first = lastp")
    case True
    then show ?thesis by (simp add: std_move.simps)
  next
    case False
    with "1.prems" have lt: "first < lastp" by simp
    have "d \<le> first \<and> first < lastp" using lt "1.prems"(1) by simp
    then have "b ! first \<noteq> None" using "1.prems"(4) by blast
    then obtain x where x: "b ! first = Some x" by blast
    have rd: "read b first = Some x" using x lt "1.prems" by (simp add: read_def)
    have "b ! d \<noteq> None" using "1.prems" lt by auto
    then have as: "assign b d x = Some (b[d := Some x])" using "1.prems" lt by (simp add: assign_def)
    have "\<exists>b'. std_move (b[d := Some x]) (Suc first) lastp (Suc d) = Some (Suc d + (lastp - Suc first), b') \<and>
        length b' = length (b[d := Some x]) \<and>
        (\<forall>i<length (b[d := Some x]). b' ! i = (if Suc d \<le> i \<and> i < Suc d + (lastp - Suc first)
            then (b[d := Some x]) ! (i + (Suc first - Suc d)) else (b[d := Some x]) ! i))"
      using "1.prems" lt by (intro "1.IH"[OF False rd as]) (auto simp: nth_list_update)
    then obtain b' where b': "std_move (b[d := Some x]) (Suc first) lastp (Suc d) = Some (Suc d + (lastp - Suc first), b')"
        "length b' = length b"
        "\<forall>i<length b. b' ! i = (if Suc d \<le> i \<and> i < Suc d + (lastp - Suc first)
            then (b[d := Some x]) ! (i + (first - d)) else (b[d := Some x]) ! i)"
      by auto
    have "std_move b first lastp d = Some (d + (lastp - first), b')"
      using False rd as b'(1) lt by (subst std_move.simps) simp
    moreover have "\<forall>i<length b. b' ! i = (if d \<le> i \<and> i < d + (lastp - first) then b ! (i + (first - d)) else b ! i)"
      using b'(3) x "1.prems" lt by (auto simp: nth_list_update)
    ultimately show ?thesis using b'(2) by blast
  qed
qed

lemma emplace_shift_live:
  "pos \<le> iter \<Longrightarrow> iter < length b \<Longrightarrow> (\<forall>i. pos \<le> i \<and> i \<le> iter \<longrightarrow> b ! i \<noteq> None) \<Longrightarrow>
   \<exists>b'. emplace_shift b iter pos = Some b' \<and> length b' = length b \<and>
     (\<forall>i<length b. b' ! i = (if pos < i \<and> i \<le> iter then b ! (i - 1) else b ! i))"
proof (induction b iter pos rule: emplace_shift.induct)
  case (1 b iter pos)
  show ?case
  proof (cases "iter = pos")
    case True
    then show ?thesis by (auto simp: emplace_shift.simps)
  next
    case False
    with "1.prems" have lt: "pos < iter" and nz: "iter \<noteq> 0" by auto
    have "pos \<le> iter - 1 \<and> iter - 1 \<le> iter" using lt by arith
    then have "b ! (iter - 1) \<noteq> None" using "1.prems"(3) by blast
    then obtain x where x: "b ! (iter - 1) = Some x" by blast
    have rd: "read b (iter - 1) = Some x" using x lt "1.prems" by (simp add: read_def)
    have "b ! iter \<noteq> None" using "1.prems" lt by auto
    then have as: "assign b iter x = Some (b[iter := Some x])" using "1.prems" by (simp add: assign_def)
    have "\<exists>b'. emplace_shift (b[iter := Some x]) (iter - 1) pos = Some b' \<and>
        length b' = length (b[iter := Some x]) \<and>
        (\<forall>i<length (b[iter := Some x]). b' ! i = (if pos < i \<and> i \<le> iter - 1
            then (b[iter := Some x]) ! (i - 1) else (b[iter := Some x]) ! i))"
      using "1.prems" lt by (intro "1.IH"[OF False nz rd as]) (auto simp: nth_list_update)
    then obtain b' where b': "emplace_shift (b[iter := Some x]) (iter - 1) pos = Some b'"
        "length b' = length b"
        "\<forall>i<length b. b' ! i = (if pos < i \<and> i \<le> iter - 1
            then (b[iter := Some x]) ! (i - 1) else (b[iter := Some x]) ! i)"
      by auto
    have "emplace_shift b iter pos = Some b'"
      using False nz rd as b'(1) by (subst emplace_shift.simps) simp
    moreover have "\<forall>i<length b. b' ! i = (if pos < i \<and> i \<le> iter then b ! (i - 1) else b ! i)"
      using b'(3) x "1.prems" lt by (auto simp: nth_list_update)
    ultimately show ?thesis using b'(2) by blast
  qed
qed

section \<open>Well-formed containers\<close>

lemma live_raw_split:
  assumes "f \<le> length b" "list_all (\<lambda>s. s \<noteq> None) (take f b)" "list_all (\<lambda>s. s = None) (drop f b)"
  shows "b = map Some (map the (take f b)) @ replicate (length b - f) None"
proof -
  have "map Some (map the (take f b)) = take f b"
    using assms(2) by (induction "take f b" arbitrary: f b) (auto simp: list_all_iff map_idI)
  moreover have "drop f b = replicate (length b - f) None"
    using assms(3) by (intro replicate_eqI) (auto simp: list_all_iff)
  ultimately show ?thesis by (metis append_take_drop_id)
qed

lemma the_block_Some: "elem_ptr v = Some p \<Longrightarrow> block_at h p = Some b \<Longrightarrow> the_block h v = b"
  by (simp add: the_block_def)

lemma the_block_wf:
  assumes "well_formed h v"
  shows "the_block h v = map Some (contents h v) @ replicate (last_ptr v - free_ptr v) None"
proof (cases "elem_ptr v")
  case None
  then show ?thesis using assms by (simp add: well_formed_def the_block_def contents_def)
next
  case (Some p)
  then obtain b where b: "block_at h p = Some b" "length b = last_ptr v" "free_ptr v \<le> last_ptr v"
      "list_all (\<lambda>s. s \<noteq> None) (take (free_ptr v) b)" "list_all (\<lambda>s. s = None) (drop (free_ptr v) b)"
    using assms by (auto simp: well_formed_def split: option.splits)
  have "the_block h v = b" using Some b(1) by (rule the_block_Some)
  then show ?thesis using live_raw_split[of "free_ptr v" b] b by (simp add: contents_def)
qed

lemma wf_bounds: "well_formed h v \<Longrightarrow> free_ptr v \<le> last_ptr v"
  by (auto simp: well_formed_def split: option.splits)

lemma length_contents: "well_formed h v \<Longrightarrow> length (contents h v) = free_ptr v"
  by (auto simp: well_formed_def contents_def the_block_def split: option.splits)

lemma length_the_block: "well_formed h v \<Longrightarrow> length (the_block h v) = last_ptr v"
  by (auto simp: well_formed_def the_block_def split: option.splits)

lemma wf_elem: "well_formed h v \<Longrightarrow> elem_ptr v = Some p \<Longrightarrow> p < length h \<and> h ! p = Some (the_block h v)"
  by (auto simp: well_formed_def the_block_def block_at_def split: option.splits if_splits)

lemma wf_null: "well_formed h v \<Longrightarrow> elem_ptr v = None \<Longrightarrow> free_ptr v = 0 \<and> last_ptr v = 0"
  by (simp add: well_formed_def)

lemma wfI:
  assumes "elem_ptr v = Some p" "p < length h" "h ! p = Some (map Some xs @ replicate k None)"
    "free_ptr v = length xs" "last_ptr v = length xs + k"
  shows "well_formed h v" and "contents h v = xs" and "the_block h v = map Some xs @ replicate k None"
  using assms by (simp_all add: well_formed_def contents_def the_block_def block_at_def list_all_iff comp_def)

lemma put_block_wf: "well_formed h v \<Longrightarrow> elem_ptr v = Some p \<Longrightarrow> put_block h v b = h[p := Some b]"
  by (auto simp: well_formed_def put_block_def split: option.splits)

lemma nth_live: "well_formed h v \<Longrightarrow> i < free_ptr v \<Longrightarrow> the_block h v ! i = Some (contents h v ! i)"
  by (simp add: the_block_wf length_contents nth_append)

lemma nth_raw: "well_formed h v \<Longrightarrow> free_ptr v \<le> i \<Longrightarrow> i < last_ptr v \<Longrightarrow> the_block h v ! i = None"
  by (simp add: the_block_wf length_contents nth_append)

section \<open>Reaching the example containers\<close>

lemma built_h1: "push_back plain [] vector_default 1 = Returns () (h1, v1)"
  by code_simp

lemma built_h123:
  "push_back plain h1 v1 2 = Returns () ([Some ([Some 1, Some 2] @ replicate 8 None)], v1\<lparr>free_ptr := 2\<rparr>)"
  "push_back plain [Some ([Some 1, Some 2] @ replicate 8 None)] (v1\<lparr>free_ptr := 2\<rparr>) 3 = Returns () (h123, v123)"
  by code_simp+

section \<open>Removing the last element\<close>

lemma pop_back_never_returns: "pop_back h v \<noteq> Returns u s"
  by (simp add: pop_back_def split: option.splits)

lemma pop_back_wf:
  assumes "well_formed h v" "0 < size_v v"
  shows "\<exists>h'. pop_back h v = Throws length_error (h', v\<lparr>free_ptr := free_ptr v - 1\<rparr>) \<and>
     well_formed h' (v\<lparr>free_ptr := free_ptr v - 1\<rparr>) \<and>
     contents h' (v\<lparr>free_ptr := free_ptr v - 1\<rparr>) = butlast (contents h v)"
proof -
  let ?xs = "contents h v" and ?k = "last_ptr v - free_ptr v"
  from assms obtain p where p: "elem_ptr v = Some p"
    by (cases "elem_ptr v") (auto simp: well_formed_def size_v_def)
  have len: "length ?xs = free_ptr v" and le: "free_ptr v \<le> last_ptr v" and pos: "0 < free_ptr v"
    using assms by (simp_all add: length_contents wf_bounds size_v_def)
  have blk: "the_block h v = map Some ?xs @ replicate ?k None" using assms(1) by (rule the_block_wf)
  have ph: "p < length h" using wf_elem[OF assms(1) p] by simp
  have ne: "?xs \<noteq> []" using len pos by auto
  have d: "destroy (the_block h v) (free_ptr v - 1) = Some (map Some (butlast ?xs) @ replicate (Suc ?k) None)"
  proof -
    have "(map Some ?xs @ replicate ?k None)[free_ptr v - 1 := None] = map Some (butlast ?xs) @ replicate (Suc ?k) None"
      using len pos ne
      by (intro nth_equalityI) (auto simp: nth_append nth_list_update nth_butlast)
    moreover have "(map Some ?xs @ replicate ?k None) ! (free_ptr v - 1) \<noteq> None"
      using len pos by (simp add: nth_append)
    ultimately show ?thesis using len pos by (simp add: destroy_def blk)
  qed
  let ?v' = "v\<lparr>free_ptr := free_ptr v - 1\<rparr>" and ?h' = "h[p := Some (map Some (butlast ?xs) @ replicate (Suc ?k) None)]"
  have "pop_back h v = Throws length_error (?h', ?v')"
    using pos d by (simp add: pop_back_def empty_v_def put_block_wf[OF assms(1) p])
  moreover have "well_formed ?h' ?v'" "contents ?h' ?v' = butlast ?xs"
    using wfI[of ?v' p ?h' "butlast ?xs" "Suc ?k"] p ph len le pos by auto
  ultimately show ?thesis by blast
qed

text \<open>
  Claim C1.  \<^verbatim>\<open>pop_back\<close> is to fail with the empty-container error exactly when the
  size is 0, and to remove the last element without an error otherwise.  The code throws
  \<^verbatim>\<open>std::length_error\<close> on every path (\<open>pop_back_never_returns\<close>): on the container
  holding the single element 1 it destroys that element, so the size becomes 0 and the
  capacity stays 10, and then throws.  The removal itself is as the claim says
  (\<open>pop_back_wf\<close>).
\<close>

theorem pop_back_throws_after_removal:
  "pop_back h1 v1 =
     Throws length_error
       ([Some (replicate 10 None)], \<lparr>elem_ptr = Some 0, free_ptr = 0, last_ptr = 10\<rparr>)"
  by code_simp

section \<open>Clearing\<close>

lemma destruct_all:
  assumes "well_formed h v"
  shows "destruct_elements (the_block h v) 0 (free_ptr v) = Some (replicate (last_ptr v) None)"
proof -
  let ?xs = "contents h v" and ?k = "last_ptr v - free_ptr v"
  have len: "length ?xs = free_ptr v" and le: "free_ptr v \<le> last_ptr v"
    using assms by (simp_all add: length_contents wf_bounds)
  have blk: "the_block h v = map Some ?xs @ replicate ?k None" using assms by (rule the_block_wf)
  have "destruct_elements (the_block h v) 0 (free_ptr v) =
      Some (take 0 (the_block h v) @ replicate (free_ptr v - 0) None @ drop (free_ptr v) (the_block h v))"
    using len by (intro destruct_elements_live) (auto simp: blk nth_append)
  also have "take 0 (the_block h v) @ replicate (free_ptr v - 0) None @ drop (free_ptr v) (the_block h v)
      = replicate (free_ptr v) None @ replicate ?k None"
    using len by (simp add: blk)
  also have "\<dots> = replicate (last_ptr v) None"
    using le by (simp add: replicate_add[symmetric])
  finally show ?thesis .
qed

text \<open>
  Claim C10.  On every well-formed container \<^verbatim>\<open>clear()\<close> destroys all the objects, so
  that the size is 0 and \<^verbatim>\<open>empty()\<close> holds, and keeps the block: \<^verbatim>\<open>elem_\<close> and the capacity
  are as before, the block is still allocated (the container is well formed in the new
  store) and all its slots are raw; no block of the store is added or released.
\<close>

theorem clear_keeps_storage:
  assumes "well_formed h v"
  shows "\<exists>h' v'. clear h v = Some (h', v') \<and> size_v v' = 0 \<and> empty_v v' \<and>
     capacity v' = capacity v \<and> elem_ptr v' = elem_ptr v \<and> well_formed h' v' \<and> contents h' v' = [] \<and>
     the_block h' v' = replicate (capacity v) None \<and> length h' = length h"
proof (cases "elem_ptr v")
  case None
  then have z: "free_ptr v = 0" "last_ptr v = 0" using wf_null[OF assms] by simp_all
  have "clear h v = Some (h, v\<lparr>free_ptr := 0\<rparr>)"
    using None z by (simp add: clear_def the_block_def put_block_def destruct_elements.simps)
  moreover have "well_formed h (v\<lparr>free_ptr := 0\<rparr>)" using None z by (simp add: well_formed_def)
  ultimately show ?thesis
    using None z by (simp add: size_v_def empty_v_def capacity_def contents_def the_block_def)
next
  case (Some p)
  let ?v' = "v\<lparr>free_ptr := 0\<rparr>" and ?h' = "h[p := Some (replicate (last_ptr v) None)]"
  have ph: "p < length h" using wf_elem[OF assms Some] by simp
  have "clear h v = Some (?h', ?v')"
    by (simp add: clear_def destruct_all[OF assms] put_block_wf[OF assms Some])
  moreover have "well_formed ?h' ?v'" "contents ?h' ?v' = []" "the_block ?h' ?v' = replicate (last_ptr v) None"
    using wfI[of ?v' p ?h' "[]" "last_ptr v"] Some ph by auto
  ultimately show ?thesis
    by (simp add: size_v_def empty_v_def capacity_def)
qed

theorem clear_keeps_storage_witness:
  "well_formed h123 v123 \<and>
   (\<exists>h' v'. clear h123 v123 = Some (h', v') \<and> size_v v' = 0 \<and> empty_v v' \<and>
      capacity v' = 10 \<and> elem_ptr v' = Some 0 \<and> well_formed h' v' \<and> contents h' v' = [] \<and>
      the_block h' v' = replicate 10 None \<and> length h' = 1)"
proof -
  have w: "well_formed h123 v123" by code_simp
  have c: "capacity v123 = 10" "elem_ptr v123 = Some 0" "length h123 = 1" by code_simp+
  show ?thesis using w clear_keeps_storage[OF w] unfolding c by simp
qed

section \<open>Element access\<close>

text \<open>
  Claim C3.  \<^verbatim>\<open>at(i)\<close>, \<^verbatim>\<open>operator[](i)\<close> and the const \<^verbatim>\<open>operator[](i)\<close> throw
  \<^verbatim>\<open>std::out_of_range\<close> exactly when \<open>i\<close> is not below the size, and return the \<open>i\<close>-th
  element otherwise.  The fourth accessor of the claim, the const \<^verbatim>\<open>at(i)\<close>, calls
  \<^verbatim>\<open>at()\<close> without an argument and cannot be instantiated.
\<close>

theorem checked_access:
  assumes "well_formed h v"
  shows "(at h v i = Throws out_of_range () \<longleftrightarrow> size_v v \<le> unat i) \<and>
     (unat i < size_v v \<longrightarrow> at h v i = Returns (contents h v ! unat i) ()) \<and>
     (operator_index h v i = Throws out_of_range () \<longleftrightarrow> size_v v \<le> unat i) \<and>
     (unat i < size_v v \<longrightarrow> operator_index h v i = Returns (contents h v ! unat i) ()) \<and>
     (operator_index_const h v i = Throws out_of_range () \<longleftrightarrow> size_v v \<le> unat i) \<and>
     (unat i < size_v v \<longrightarrow> operator_index_const h v i = Returns (contents h v ! unat i) ())"
proof -
  have rd: "read (the_block h v) (unat i) = Some (contents h v ! unat i)" if "unat i < size_v v"
    using that nth_live[OF assms, of "unat i"] length_the_block[OF assms] wf_bounds[OF assms]
    by (simp add: read_def size_v_def)
  show ?thesis
    using rd by (auto simp: at_def operator_index_def operator_index_const_def)
qed

theorem checked_access_witness:
  "well_formed h123 v123 \<and> at h123 v123 1 = Returns 2 () \<and> at h123 v123 3 = Throws out_of_range () \<and>
   operator_index h123 v123 2 = Returns 3 () \<and> operator_index h123 v123 3 = Throws out_of_range () \<and>
   operator_index_const h123 v123 0 = Returns 1 () \<and> operator_index_const h123 v123 7 = Throws out_of_range ()"
proof -
  have w: "well_formed h123 v123" by code_simp
  have c: "contents h123 v123 = [1, 2, 3]" "size_v v123 = 3" by code_simp+
  show ?thesis
    using w checked_access[OF w, of 1] checked_access[OF w, of 3] checked_access[OF w, of 2]
      checked_access[OF w, of 0] checked_access[OF w, of 7]
    unfolding c by simp
qed

lemma front_throws_iff: "front h v = Throws length_error () \<longleftrightarrow> elem_ptr v = None"
  by (simp add: front_def split: option.splits)

lemma back_throws_iff: "back_v h v = Throws length_error () \<longleftrightarrow> elem_ptr v = None"
  by (simp add: back_v_def split: option.splits)

lemma front_back_nonempty:
  assumes "well_formed h v" "0 < size_v v"
  shows "front h v = Returns (hd (contents h v)) ()" and "back_v h v = Returns (last (contents h v)) ()"
proof -
  from assms obtain p where p: "elem_ptr v = Some p"
    by (cases "elem_ptr v") (auto simp: well_formed_def size_v_def)
  have len: "length (contents h v) = free_ptr v" and pos: "0 < free_ptr v" and le: "free_ptr v \<le> last_ptr v"
    using assms by (simp_all add: length_contents size_v_def wf_bounds)
  have ne: "contents h v \<noteq> []" using len pos by auto
  have "read (the_block h v) 0 = Some (hd (contents h v))"
    using nth_live[OF assms(1) pos] length_the_block[OF assms(1)] pos le ne
    by (simp add: read_def hd_conv_nth)
  then show "front h v = Returns (hd (contents h v)) ()" using p by (simp add: front_def)
  have "read (the_block h v) (free_ptr v - 1) = Some (last (contents h v))"
    using nth_live[OF assms(1), of "free_ptr v - 1"] length_the_block[OF assms(1)] pos le ne len
    by (simp add: read_def last_conv_nth)
  then show "back_v h v = Returns (last (contents h v)) ()" using p pos by (simp add: back_v_def)
qed

lemma front_back_empty_allocated:
  assumes "well_formed h v" "size_v v = 0" "elem_ptr v \<noteq> None"
  shows "front h v = Undefined" and "back_v h v = Undefined"
proof -
  from assms(3) obtain p where p: "elem_ptr v = Some p" by auto
  have z: "free_ptr v = 0" using assms(2) by (simp add: size_v_def)
  have "read (the_block h v) 0 = None"
  proof (cases "0 < last_ptr v")
    case True
    then show ?thesis using nth_raw[OF assms(1), of 0] z length_the_block[OF assms(1)]
      by (simp add: read_def)
  next
    case False
    then show ?thesis using length_the_block[OF assms(1)] by (simp add: read_def)
  qed
  then show "front h v = Undefined" using p by (simp add: front_def)
  show "back_v h v = Undefined" using p z by (simp add: back_v_def)
qed

text \<open>
  Claim C4.  \<^verbatim>\<open>front()\<close> and \<^verbatim>\<open>back()\<close> are to fail with the empty-container error
  exactly when the size is 0, also when the capacity is positive.  The code tests
  \<^verbatim>\<open>elem_\<close> against null instead (\<open>front_throws_iff\<close>, \<open>back_throws_iff\<close>): after
  \<^verbatim>\<open>push_back(1)\<close> and \<^verbatim>\<open>clear()\<close> the size is 0, the block of 10 slots is still there,
  and both return a reference to a slot without an object instead of throwing, as they do
  on every well-formed empty container that has a block
  (\<open>front_back_empty_allocated\<close>).  On a non-empty container they return the first and
  the last element (\<open>front_back_nonempty\<close>).
\<close>

theorem front_back_after_clear:
  "clear h1 v1 = Some ([Some (replicate 10 None)], \<lparr>elem_ptr = Some 0, free_ptr = 0, last_ptr = 10\<rparr>) \<and>
   size_v \<lparr>elem_ptr = Some 0, free_ptr = 0, last_ptr = 10\<rparr> = 0 \<and>
   front [Some (replicate 10 None :: int option list)] \<lparr>elem_ptr = Some 0, free_ptr = 0, last_ptr = 10\<rparr> = Undefined \<and>
   front_const [Some (replicate 10 None :: int option list)] \<lparr>elem_ptr = Some 0, free_ptr = 0, last_ptr = 10\<rparr> = Undefined \<and>
   back_v [Some (replicate 10 None :: int option list)] \<lparr>elem_ptr = Some 0, free_ptr = 0, last_ptr = 10\<rparr> = Undefined"
  by code_simp

section \<open>Growing the storage\<close>

lemma block_at_append: "p < length h \<Longrightarrow> block_at (h @ ys) p = block_at h p"
  by (simp add: block_at_def nth_append)

lemma wf_append:
  assumes "well_formed h v"
  shows "well_formed (h @ ys) v" and "the_block (h @ ys) v = the_block h v" and "contents (h @ ys) v = contents h v"
proof -
  have *: "block_at (h @ ys) p = block_at h p" if "elem_ptr v = Some p" for p
    using wf_elem[OF assms that] by (simp add: block_at_append)
  show "well_formed (h @ ys) v" using assms * by (auto simp: well_formed_def split: option.splits)
  show tb: "the_block (h @ ys) v = the_block h v" using * by (auto simp: the_block_def split: option.splits)
  show "contents (h @ ys) v = contents h v" by (simp add: contents_def tb)
qed

lemma live_range_wf: "well_formed h v \<Longrightarrow> live_range h v = Some (map Some (contents h v))"
  by (simp add: live_range_def the_block_wf length_contents wf_bounds)

lemma vector_null_eq: "elem_ptr v = None \<Longrightarrow> free_ptr v = 0 \<Longrightarrow> last_ptr v = 0 \<Longrightarrow>
    (v :: vector) = \<lparr>elem_ptr = None, free_ptr = 0, last_ptr = 0\<rparr>"
  by (cases v) simp

lemma clear_elements_wf:
  assumes "well_formed h v"
  shows "clear_elements h v = Some (released h (elem_ptr v), \<lparr>elem_ptr = None, free_ptr = 0, last_ptr = 0\<rparr>)"
proof (cases "elem_ptr v")
  case None
  then show ?thesis using wf_null[OF assms None] vector_null_eq[of v]
    by (simp add: clear_elements_def released_def)
next
  case (Some p)
  have ph: "p < length h" using wf_elem[OF assms Some] by simp
  have "deallocate (h[p := Some (replicate (last_ptr v) None)]) p (capacity v) = Some (h[p := None])"
    using ph by (simp add: deallocate_def block_at_def capacity_def)
  then show ?thesis
    using Some by (simp add: clear_elements_def destruct_all[OF assms] put_block_wf[OF assms Some] released_def)
qed

lemma relocate_ok:
  assumes "length xs \<le> n" "nothrow_move T \<or> (\<forall>x\<in>set xs. \<not> copy_throws T x)"
  shows "(if nothrow_move T
          then (case move_construct_all (map Some xs) (replicate n None) 0 of
                  None \<Rightarrow> Undefined
                | Some (new_free, b) \<Rightarrow> Returns new_free b)
          else uninitialized_copy (copy_throws T) (map Some xs) (replicate n None) 0)
     = Returns (length xs) (map Some xs @ replicate (n - length xs) None)"
proof (cases "nothrow_move T")
  case True
  then show ?thesis
    using move_construct_all_ok[of 0 xs "replicate n None"] assms(1) by simp
next
  case False
  then show ?thesis
    using uninitialized_copy_ok[of xs "copy_throws T" 0 "replicate n None"] assms by simp
qed

lemma released_append: "well_formed h v \<Longrightarrow> released (h @ ys) (elem_ptr v) = released h (elem_ptr v) @ ys"
  by (cases "elem_ptr v") (auto simp: released_def list_update_append dest: wf_elem)

lemma expand_capacity_grows:
  assumes "well_formed h v" "capacity v < n" "\<not> alloc_fails T n"
    "nothrow_move T \<or> (\<forall>x\<in>set (contents h v). \<not> copy_throws T x)"
  shows "expand_capacity T h v n =
      Returns () (released h (elem_ptr v) @ [Some (map Some (contents h v) @ replicate (n - free_ptr v) None)],
                  \<lparr>elem_ptr = Some (length h), free_ptr = free_ptr v, last_ptr = n\<rparr>)"
proof -
  let ?xs = "contents h v"
  let ?b = "map Some ?xs @ replicate (n - free_ptr v) None"
  have len: "length ?xs = free_ptr v" and le: "free_ptr v \<le> last_ptr v"
    using assms(1) by (simp_all add: length_contents wf_bounds)
  have ln: "length ?xs \<le> n" using len le assms(2) by (simp add: capacity_def)
  have rl: "(if nothrow_move T
          then (case move_construct_all (map Some ?xs) (replicate n None) 0 of
                  None \<Rightarrow> Undefined
                | Some (new_free, b) \<Rightarrow> Returns new_free b)
          else uninitialized_copy (copy_throws T) (map Some ?xs) (replicate n None) 0)
     = Returns (free_ptr v) ?b"
    using relocate_ok[OF ln assms(4)] by (simp add: len)
  have upd: "(h @ [Some (replicate n None)])[length h := Some ?b] = h @ [Some ?b]"
    by simp
  have w: "well_formed (h @ [Some ?b]) v" using assms(1) by (rule wf_append)
  have ce: "clear_elements (h @ [Some ?b]) v =
      Some (released h (elem_ptr v) @ [Some ?b], \<lparr>elem_ptr = None, free_ptr = 0, last_ptr = 0\<rparr>)"
    using clear_elements_wf[OF w] released_append[OF assms(1)] by simp
  show ?thesis
    using assms(2,3)
    by (simp add: expand_capacity_def allocate_def live_range_wf[OF assms(1)] rl upd ce)
qed

lemma expand_capacity_grows_wf:
  assumes "well_formed h v" "capacity v < n"
  defines "h' \<equiv> released h (elem_ptr v) @ [Some (map Some (contents h v) @ replicate (n - free_ptr v) None)]"
    and "v' \<equiv> \<lparr>elem_ptr = Some (length h), free_ptr = free_ptr v, last_ptr = n\<rparr>"
  shows "well_formed h' v'" and "contents h' v' = contents h v"
proof -
  have len: "length (contents h v) = free_ptr v" and le: "free_ptr v \<le> last_ptr v"
    using assms(1) by (simp_all add: length_contents wf_bounds)
  have lr: "length (released h (elem_ptr v)) = length h"
    by (simp add: released_def split: option.splits)
  have "well_formed h' v' \<and> contents h' v' = contents h v"
    using wfI[of v' "length h" h' "contents h v" "n - free_ptr v"] len le assms(2) lr
    by (simp add: h'_def v'_def capacity_def nth_append)
  then show "well_formed h' v'" and "contents h' v' = contents h v" by simp_all
qed

lemma expand_capacity_copy_fails:
  assumes "well_formed h v" "capacity v < n" "\<not> alloc_fails T n" "\<not> nothrow_move T"
    "\<exists>x\<in>set (contents h v). copy_throws T x"
  shows "expand_capacity T h v n = Throws copy_failure (h @ [None], v)"
proof -
  let ?xs = "contents h v"
  have len: "length ?xs = free_ptr v" and le: "free_ptr v \<le> last_ptr v"
    using assms(1) by (simp_all add: length_contents wf_bounds)
  have ln: "0 + length ?xs \<le> length (replicate n (None :: 'a option))"
    using len le assms(2) by (simp add: capacity_def)
  have uc: "uninitialized_copy (copy_throws T) (map Some ?xs) (replicate n None) 0 =
      Throws copy_failure (replicate n None)"
    using assms(5) ln by (rule uninitialized_copy_throw) simp
  have de: "deallocate (h @ [Some (replicate n None)]) (length h) n = Some (h @ [None])"
    by (simp add: deallocate_def block_at_def)
  show ?thesis
    using assms(2,3,4)
    by (simp add: expand_capacity_def allocate_def live_range_wf[OF assms(1)] uc de)
qed

lemma expand_capacity_alloc_fails:
  "capacity v < n \<Longrightarrow> alloc_fails T n \<Longrightarrow> expand_capacity T h v n = Throws bad_alloc (h, v)"
  by (simp add: expand_capacity_def allocate_def)

lemma expand_capacity_enough:
  "n \<le> capacity v \<Longrightarrow> expand_capacity T h v n = Returns () (h, v)"
  by (simp add: expand_capacity_def)

text \<open>
  Claim C8.  A growth that has its new block (\<open>n\<close> above the capacity, the allocator
  delivers) either fails as a whole or succeeds as a whole.  When the elements are
  relocated by copying and the copy of one of them throws: the elements handed to
  \<^verbatim>\<open>std::uninitialized_copy\<close> are the contents; its construction loop stops at the
  throwing copy with the copies of the elements before it built in the first slots of the
  new block; these partially built copies are destroyed again, so that the new block
  holds no object when the exception reaches the handler; \<^verbatim>\<open>expand_capacity\<close> releases
  that block and passes the exception on.  The object is the one before the call (same
  \<^verbatim>\<open>elem_\<close>, size and capacity), its block and contents are untouched, and the new
  block, at the address \<open>length h\<close>, is gone with no other block of the store changed.
  Otherwise the call returns with the same contents and size in a block of capacity \<open>n\<close>.
\<close>

theorem growth_all_or_nothing:
  assumes "well_formed h v" "capacity v < n" "\<not> alloc_fails T n"
  shows "if \<not> nothrow_move T \<and> (\<exists>x\<in>set (contents h v). copy_throws T x)
     then live_range h v = Some (map Some (contents h v)) \<and>
          copy_construct_loop (copy_throws T) (map Some (contents h v)) (replicate n None) 0 =
            Throws copy_failure (length (copied_before_throw T (contents h v)),
              map Some (copied_before_throw T (contents h v)) @
              replicate (n - length (copied_before_throw T (contents h v))) None) \<and>
          uninitialized_copy (copy_throws T) (map Some (contents h v)) (replicate n None) 0 =
            Throws copy_failure (replicate n None) \<and>
          expand_capacity T h v n = Throws copy_failure (h @ [None], v) \<and>
          well_formed (h @ [None]) v \<and> contents (h @ [None]) v = contents h v \<and>
          block_at (h @ [None]) (length h) = None \<and>
          (\<forall>p. p < length h \<longrightarrow> block_at (h @ [None]) p = block_at h p)
     else (\<exists>h' v'. expand_capacity T h v n = Returns () (h', v') \<and> well_formed h' v' \<and>
          contents h' v' = contents h v \<and> size_v v' = size_v v \<and> capacity v' = n)"
proof (cases "\<not> nothrow_move T \<and> (\<exists>x\<in>set (contents h v). copy_throws T x)")
  case True
  let ?xs = "contents h v"
  define ys where "ys = copied_before_throw T ?xs"
  have len: "length ?xs = free_ptr v" and le: "free_ptr v \<le> last_ptr v"
    using assms(1) by (simp_all add: length_contents wf_bounds)
  have ln: "0 + length ?xs \<le> length (replicate n (None :: 'a option))"
    using len le assms(2) by (simp add: capacity_def)
  have ex: "\<exists>x\<in>set ?xs. copy_throws T x" using True by blast
  have "copy_construct_loop (copy_throws T) (map Some ?xs) (replicate n None) 0 =
      Throws copy_failure (0 + length (takeWhile (\<lambda>x. \<not> copy_throws T x) ?xs),
        take 0 (replicate n None) @ map Some (takeWhile (\<lambda>x. \<not> copy_throws T x) ?xs) @
        drop (0 + length (takeWhile (\<lambda>x. \<not> copy_throws T x) ?xs)) (replicate n None))"
    using ex ln by (rule copy_construct_loop_stops)
  then have lp: "copy_construct_loop (copy_throws T) (map Some ?xs) (replicate n None) 0 =
      Throws copy_failure (length ys, map Some ys @ replicate (n - length ys) None)"
    by (simp add: ys_def copied_before_throw_def)
  have uc: "uninitialized_copy (copy_throws T) (map Some ?xs) (replicate n None) 0 =
      Throws copy_failure (replicate n None)"
    using ex ln by (rule uninitialized_copy_throw) simp
  have "live_range h v = Some (map Some ?xs)"
    using assms(1) by (rule live_range_wf)
  moreover have "expand_capacity T h v n = Throws copy_failure (h @ [None], v)"
    using True expand_capacity_copy_fails[OF assms] by blast
  moreover have "well_formed (h @ [None]) v" "contents (h @ [None]) v = contents h v"
    using wf_append[OF assms(1)] by simp_all
  moreover have "block_at (h @ [None]) (length h) = None"
    by (simp add: block_at_def)
  moreover have "\<forall>p. p < length h \<longrightarrow> block_at (h @ [None]) p = block_at h p"
    by (simp add: block_at_append)
  ultimately show ?thesis using True lp uc unfolding ys_def by simp
next
  case False
  then have ok: "nothrow_move T \<or> (\<forall>x\<in>set (contents h v). \<not> copy_throws T x)" by blast
  show ?thesis
    using False expand_capacity_grows[OF assms ok] expand_capacity_grows_wf[OF assms(1,2)]
    by (simp add: size_v_def capacity_def)
qed

theorem growth_all_or_nothing_witness:
  "well_formed h123 v123 \<and> capacity v123 < 20 \<and> \<not> alloc_fails fragile 20 \<and>
   live_range h123 v123 = Some [Some 1, Some 2, Some 3] \<and>
   copy_construct_loop (copy_throws fragile) [Some 1, Some 2, Some 3] (replicate 20 None) 0 =
     Throws copy_failure (1, Some 1 # replicate 19 None) \<and>
   uninitialized_copy (copy_throws fragile) [Some 1, Some 2, Some 3] (replicate 20 None) 0 =
     Throws copy_failure (replicate 20 None) \<and>
   expand_capacity fragile h123 v123 20 = Throws copy_failure (h123 @ [None], v123) \<and>
   well_formed (h123 @ [None]) v123 \<and> contents (h123 @ [None]) v123 = [1, 2, 3] \<and>
   block_at (h123 @ [None]) 1 = None"
proof -
  have w: "well_formed h123 v123" and c: "capacity v123 < 20" and a: "\<not> alloc_fails fragile 20"
    by code_simp+
  have t: "\<not> nothrow_move fragile \<and> (\<exists>x\<in>set (contents h123 v123). copy_throws fragile x)"
    by code_simp
  have e: "contents h123 v123 = [1, 2, 3]" "length h123 = 1"
    "copied_before_throw fragile [1, 2, 3] = [1]" by code_simp+
  have r: "replicate (20 - Suc 0) (None :: int option) = replicate 19 None" by simp
  show ?thesis
    using growth_all_or_nothing[OF w c a] t w c a by (simp add: e r)
qed

lemma push_back_growth_fails:
  assumes "well_formed h v" "free_ptr v = last_ptr v" "0 < size_v v" "size_v v < 2 ^ 63"
    "\<not> alloc_fails T (2 * size_v v)" "\<not> nothrow_move T" "\<exists>x\<in>set (contents h v). copy_throws T x"
  shows "push_back T h v y = Throws copy_failure (h @ [None], v)"
proof -
  have "unat (word_of_nat (size_v v) * EXPAND_RATE :: size_type) = 2 * size_v v"
    using assms(4) by (simp add: EXPAND_RATE_def unat_word_ariths unat_of_nat)
  moreover have "capacity v < 2 * size_v v" using assms(2,3) by (simp add: capacity_def size_v_def)
  ultimately show ?thesis
    using assms expand_capacity_copy_fails[of h v "2 * size_v v" T]
    by (simp add: push_back_def check_expand_capacity_def empty_v_def size_v_def)
qed

section \<open>Appending\<close>

lemma unat_double: "n < 2 ^ 63 \<Longrightarrow> unat (word_of_nat n * EXPAND_RATE :: size_type) = 2 * n"
  by (simp add: EXPAND_RATE_def unat_word_ariths unat_of_nat)

lemma check_expand_capacity_room:
  "free_ptr v \<noteq> last_ptr v \<Longrightarrow> check_expand_capacity T h v = Returns () (h, v)"
  by (simp add: check_expand_capacity_def)

lemma check_expand_capacity_ok:
  assumes "well_formed h v" "can_make_room T h v"
  shows "\<exists>h1 v1. check_expand_capacity T h v = Returns () (h1, v1) \<and> well_formed h1 v1 \<and>
     contents h1 v1 = contents h v \<and> free_ptr v1 = free_ptr v \<and> free_ptr v1 < last_ptr v1 \<and>
     last_ptr v1 = (if free_ptr v = last_ptr v then (if size_v v = 0 then 10 else 2 * size_v v)
                    else last_ptr v)"
proof (cases "free_ptr v = last_ptr v")
  case False
  then show ?thesis
    using assms(1) wf_bounds[OF assms(1)] by (simp add: check_expand_capacity_room)
next
  case True
  let ?n = "if size_v v = 0 then 10 else 2 * size_v v"
  from True assms(2) have lt: "size_v v < 2 ^ 63" and al: "\<not> alloc_fails T ?n"
    and mv: "nothrow_move T \<or> (\<forall>x\<in>set (contents h v). \<not> copy_throws T x)"
    by (simp_all add: can_make_room_def)
  have nc: "(if empty_v v then FIRST_EXPAND_CAPACITY else unat (word_of_nat (size_v v) * EXPAND_RATE)) = ?n"
    using unat_double[OF lt] by (simp add: empty_v_def size_v_def FIRST_EXPAND_CAPACITY_def)
  have cap: "capacity v < ?n" using True by (simp add: capacity_def size_v_def)
  have "check_expand_capacity T h v = expand_capacity T h v ?n"
    using True nc by (simp add: check_expand_capacity_def)
  then show ?thesis
    using expand_capacity_grows[OF assms(1) cap al mv] expand_capacity_grows_wf[OF assms(1) cap]
      True cap by (simp add: capacity_def size_v_def)
qed

lemma append_slot:
  assumes "well_formed h v" "free_ptr v < last_ptr v"
  shows "\<exists>b. construct (the_block h v) (free_ptr v) x = Some b \<and>
     well_formed (put_block h v b) (v\<lparr>free_ptr := Suc (free_ptr v)\<rparr>) \<and>
     contents (put_block h v b) (v\<lparr>free_ptr := Suc (free_ptr v)\<rparr>) = contents h v @ [x]"
proof -
  let ?xs = "contents h v" and ?k = "last_ptr v - free_ptr v"
  from assms obtain p where p: "elem_ptr v = Some p"
    by (cases "elem_ptr v") (auto simp: well_formed_def)
  have len: "length ?xs = free_ptr v" using assms(1) by (rule length_contents)
  have blk: "the_block h v = map Some ?xs @ replicate ?k None" using assms(1) by (rule the_block_wf)
  have ph: "p < length h" using wf_elem[OF assms(1) p] by simp
  let ?b = "map Some (?xs @ [x]) @ replicate (?k - 1) None"
  have "(map Some ?xs @ replicate ?k None)[free_ptr v := Some x] = ?b"
    using len assms(2)
    by (intro nth_equalityI) (auto simp: nth_append nth_list_update)
  then have c: "construct (the_block h v) (free_ptr v) x = Some ?b"
    using len assms(2) by (simp add: construct_def blk)
  let ?v' = "v\<lparr>free_ptr := Suc (free_ptr v)\<rparr>" and ?h' = "h[p := Some ?b]"
  have "well_formed ?h' ?v'" "contents ?h' ?v' = ?xs @ [x]"
    using wfI[of ?v' p ?h' "?xs @ [x]" "?k - 1"] p ph len assms(2) by auto
  then show ?thesis using c put_block_wf[OF assms(1) p] by simp
qed

lemma push_back_ok:
  assumes "well_formed h v" "can_make_room T h v" "\<not> copy_throws T x"
  shows "\<exists>h' v'. push_back T h v x = Returns () (h', v') \<and> well_formed h' v' \<and>
     contents h' v' = contents h v @ [x] \<and> size_v v' = size_v v + 1 \<and>
     capacity v' = (if free_ptr v = last_ptr v then (if size_v v = 0 then 10 else 2 * size_v v)
                    else capacity v)"
proof -
  from check_expand_capacity_ok[OF assms(1,2)] obtain h1 v1 where
    ce: "check_expand_capacity T h v = Returns () (h1, v1)" and w1: "well_formed h1 v1"
    and c1: "contents h1 v1 = contents h v" and f1: "free_ptr v1 = free_ptr v"
    and r1: "free_ptr v1 < last_ptr v1"
    and l1: "last_ptr v1 = (if free_ptr v = last_ptr v then (if size_v v = 0 then 10 else 2 * size_v v)
                    else last_ptr v)"
    by blast
  from append_slot[OF w1 r1, of x] obtain b where
    b: "construct (the_block h1 v1) (free_ptr v1) x = Some b"
    and w2: "well_formed (put_block h1 v1 b) (v1\<lparr>free_ptr := Suc (free_ptr v1)\<rparr>)"
    and c2: "contents (put_block h1 v1 b) (v1\<lparr>free_ptr := Suc (free_ptr v1)\<rparr>) = contents h1 v1 @ [x]"
    by blast
  have "push_back T h v x = Returns () (put_block h1 v1 b, v1\<lparr>free_ptr := Suc (free_ptr v1)\<rparr>)"
    using ce b assms(3) by (simp add: push_back_def)
  then show ?thesis
    using w2 c2 c1 f1 l1 by (simp add: size_v_def capacity_def)
qed

lemma push_back_move_ok:
  assumes "well_formed h v" "can_make_room T h v"
  shows "\<exists>h' v'. push_back_move T h v x = Returns () (h', v') \<and> well_formed h' v' \<and>
     contents h' v' = contents h v @ [x] \<and> size_v v' = size_v v + 1 \<and>
     capacity v' = (if free_ptr v = last_ptr v then (if size_v v = 0 then 10 else 2 * size_v v)
                    else capacity v)"
proof -
  from check_expand_capacity_ok[OF assms(1,2)] obtain h1 v1 where
    ce: "check_expand_capacity T h v = Returns () (h1, v1)" and w1: "well_formed h1 v1"
    and c1: "contents h1 v1 = contents h v" and f1: "free_ptr v1 = free_ptr v"
    and r1: "free_ptr v1 < last_ptr v1"
    and l1: "last_ptr v1 = (if free_ptr v = last_ptr v then (if size_v v = 0 then 10 else 2 * size_v v)
                    else last_ptr v)"
    by blast
  from append_slot[OF w1 r1, of x] obtain b where
    b: "construct (the_block h1 v1) (free_ptr v1) x = Some b"
    and w2: "well_formed (put_block h1 v1 b) (v1\<lparr>free_ptr := Suc (free_ptr v1)\<rparr>)"
    and c2: "contents (put_block h1 v1 b) (v1\<lparr>free_ptr := Suc (free_ptr v1)\<rparr>) = contents h1 v1 @ [x]"
    by blast
  have "push_back_move T h v x = Returns () (put_block h1 v1 b, v1\<lparr>free_ptr := Suc (free_ptr v1)\<rparr>)"
    using ce b by (simp add: push_back_move_def)
  then show ?thesis
    using w2 c2 c1 f1 l1 by (simp add: size_v_def capacity_def)
qed

lemma capacity_after_shape:
  "0 < n \<Longrightarrow> \<exists>k. capacity_after n = 10 * 2 ^ k \<and> n \<le> capacity_after n \<and>
     (k = 0 \<or> capacity_after n < 2 * n)"
proof (induction n)
  case 0
  then show ?case by simp
next
  case (Suc n)
  show ?case
  proof (cases "n = 0")
    case True
    then show ?thesis by (intro exI[of _ 0]) simp
  next
    case False
    with Suc.IH obtain k where k: "capacity_after n = 10 * 2 ^ k" "n \<le> capacity_after n"
      "k = 0 \<or> capacity_after n < 2 * n" by auto
    show ?thesis
    proof (cases "capacity_after n = n")
      case True
      then have "capacity_after (Suc n) = 10 * 2 ^ Suc k" using False k(1) by simp
      moreover have "Suc n \<le> capacity_after (Suc n)" "capacity_after (Suc n) < 2 * Suc n"
        using True False by simp_all
      ultimately show ?thesis by blast
    next
      case neq: False
      then have "capacity_after (Suc n) = 10 * 2 ^ k" using k(1) by simp
      moreover have "Suc n \<le> capacity_after (Suc n)" using neq k(2) by simp
      moreover have "k = 0 \<or> capacity_after (Suc n) < 2 * Suc n" using neq k(3) by auto
      ultimately show ?thesis by blast
    qed
  qed
qed

lemma push_back_all_ok:
  assumes "well_formed h v" "capacity v = capacity_after (size_v v)"
    "\<forall>x\<in>set (contents h v) \<union> set xs. \<not> copy_throws T x"
    "size_v v + length xs \<le> 2 ^ 63"
    "\<forall>n. n \<le> max 10 (2 * (size_v v + length xs)) \<longrightarrow> \<not> alloc_fails T n"
  shows "\<exists>h' v'. push_back_all T xs h v = Returns () (h', v') \<and> well_formed h' v' \<and>
     contents h' v' = contents h v @ xs \<and> size_v v' = size_v v + length xs \<and>
     capacity v' = capacity_after (size_v v + length xs)"
  using assms
proof (induction xs arbitrary: h v)
  case Nil
  then show ?case by simp
next
  case (Cons x xs)
  have room: "can_make_room T h v"
    using Cons.prems(3,4,5) by (auto simp: can_make_room_def)
  have nx: "\<not> copy_throws T x" using Cons.prems(3) by simp
  from push_back_ok[OF Cons.prems(1) room nx] obtain h1 v1 where
    pb: "push_back T h v x = Returns () (h1, v1)" and w1: "well_formed h1 v1"
    and c1: "contents h1 v1 = contents h v @ [x]" and s1: "size_v v1 = size_v v + 1"
    and k1: "capacity v1 = (if free_ptr v = last_ptr v then (if size_v v = 0 then 10 else 2 * size_v v)
                    else capacity v)"
    by blast
  have cap1: "capacity v1 = capacity_after (size_v v1)"
    using k1 s1 Cons.prems(2) by (auto simp: size_v_def capacity_def)
  have "\<exists>h' v'. push_back_all T xs h1 v1 = Returns () (h', v') \<and> well_formed h' v' \<and>
     contents h' v' = contents h1 v1 @ xs \<and> size_v v' = size_v v1 + length xs \<and>
     capacity v' = capacity_after (size_v v1 + length xs)"
    using w1 cap1 Cons.prems(3,4,5) c1 s1 by (intro Cons.IH) auto
  then show ?case using pb c1 s1 by auto
qed

text \<open>
  Claim C5, as amended.  An append that goes through adds one element; when it finds the
  container full (\<^verbatim>\<open>free_ == last_\<close>) the capacity becomes 10 if the container is empty
  and twice the size otherwise, also when that is less than 10, and with room left the
  capacity stays.  Hence \<open>n\<close> appends to a default-constructed container, with the
  allocator delivering and no copy throwing, return with size \<open>n\<close>, the elements in the
  order of the calls, and the capacity 0, 10, 20, 40, ... of \<open>capacity_after\<close>: for
  \<open>n > 0\<close> the number \<open>10 * 2 ^ k\<close> that is at least \<open>n\<close> and, unless it is 10, below
  \<open>2 * n\<close>.  The theorem is about \<^verbatim>\<open>push_back(const value_type &)\<close>; the overload taking
  an rvalue grows the capacity in the same way (\<open>push_back_move_ok\<close>).
\<close>

theorem push_back_capacity:
  "(well_formed h v \<and> can_make_room T h v \<and> \<not> copy_throws T x \<longrightarrow>
      (\<exists>h' v'. push_back T h v x = Returns () (h', v') \<and> well_formed h' v' \<and>
         size_v v' = size_v v + 1 \<and> contents h' v' = contents h v @ [x] \<and>
         capacity v' = (if free_ptr v = last_ptr v
                        then (if size_v v = 0 then 10 else 2 * size_v v)
                        else capacity v))) \<and>
   ((\<forall>y\<in>set ys. \<not> copy_throws T y) \<and> length ys \<le> 2 ^ 63 \<and>
    (\<forall>n. n \<le> max 10 (2 * length ys) \<longrightarrow> \<not> alloc_fails T n) \<longrightarrow>
      (\<exists>h' v'. push_back_all T ys [] vector_default = Returns () (h', v') \<and>
         well_formed h' v' \<and> size_v v' = length ys \<and> contents h' v' = ys \<and>
         capacity v' = capacity_after (length ys) \<and>
         (ys \<noteq> [] \<longrightarrow>
            (\<exists>k. capacity v' = 10 * 2 ^ k \<and> length ys \<le> capacity v' \<and>
                 (k = 0 \<or> capacity v' < 2 * length ys)))))"
proof (intro conjI impI)
  assume "well_formed h v \<and> can_make_room T h v \<and> \<not> copy_throws T x"
  then show "\<exists>h' v'. push_back T h v x = Returns () (h', v') \<and> well_formed h' v' \<and>
         size_v v' = size_v v + 1 \<and> contents h' v' = contents h v @ [x] \<and>
         capacity v' = (if free_ptr v = last_ptr v
                        then (if size_v v = 0 then 10 else 2 * size_v v)
                        else capacity v)"
    using push_back_ok[of h v T x] by blast
next
  assume a: "(\<forall>y\<in>set ys. \<not> copy_throws T y) \<and> length ys \<le> 2 ^ 63 \<and>
    (\<forall>n. n \<le> max 10 (2 * length ys) \<longrightarrow> \<not> alloc_fails T n)"
  have w0: "well_formed ([] :: 'a heap) vector_default" and c0: "contents ([] :: 'a heap) vector_default = []"
    and s0: "size_v vector_default = 0" and k0: "capacity vector_default = capacity_after (size_v vector_default)"
    by (simp_all add: well_formed_def vector_default_def contents_def the_block_def size_v_def capacity_def)
  have "\<exists>h' v'. push_back_all T ys [] vector_default = Returns () (h', v') \<and> well_formed h' v' \<and>
     contents h' v' = contents [] vector_default @ ys \<and> size_v v' = size_v vector_default + length ys \<and>
     capacity v' = capacity_after (size_v vector_default + length ys)"
    using a by (intro push_back_all_ok[OF w0 k0]) (simp_all add: c0 s0)
  then obtain h' v' where r: "push_back_all T ys [] vector_default = Returns () (h', v')"
    "well_formed h' v'" "contents h' v' = ys" "size_v v' = length ys"
    "capacity v' = capacity_after (length ys)"
    by (auto simp: c0 s0)
  have "ys \<noteq> [] \<longrightarrow> (\<exists>k. capacity v' = 10 * 2 ^ k \<and> length ys \<le> capacity v' \<and>
                 (k = 0 \<or> capacity v' < 2 * length ys))"
    using capacity_after_shape[of "length ys"] r(5) by auto
  with r show "\<exists>h' v'. push_back_all T ys [] vector_default = Returns () (h', v') \<and>
         well_formed h' v' \<and> size_v v' = length ys \<and> contents h' v' = ys \<and>
         capacity v' = capacity_after (length ys) \<and>
         (ys \<noteq> [] \<longrightarrow>
            (\<exists>k. capacity v' = 10 * 2 ^ k \<and> length ys \<le> capacity v' \<and>
                 (k = 0 \<or> capacity v' < 2 * length ys)))"
    by blast
qed

theorem push_back_capacity_witness:
  "well_formed ([] :: int heap) vector_default \<and> can_make_room plain [] vector_default \<and>
   \<not> copy_throws plain 1 \<and>
   (\<exists>h' v'. push_back plain [] vector_default 1 = Returns () (h', v') \<and> well_formed h' v' \<and>
      size_v v' = 1 \<and> contents h' v' = [1] \<and> capacity v' = 10) \<and>
   (\<exists>h' v'. push_back_all plain [1, 2, 3, 4, 5, 6, 7, 8, 9, 10, 11] [] vector_default = Returns () (h', v') \<and>
      well_formed h' v' \<and> size_v v' = 11 \<and> contents h' v' = [1, 2, 3, 4, 5, 6, 7, 8, 9, 10, 11] \<and>
      capacity v' = 20)"
proof -
  define ys :: "int list" where "ys = [1, 2, 3, 4, 5, 6, 7, 8, 9, 10, 11]"
  have w: "well_formed ([] :: int heap) vector_default" by code_simp
  have r: "can_make_room plain [] vector_default"
    by (simp add: can_make_room_def plain_def size_v_def vector_default_def)
  have c: "\<not> copy_throws plain 1" by (simp add: plain_def)
  have e: "free_ptr vector_default = last_ptr vector_default" "size_v vector_default = 0"
    "contents ([] :: int heap) vector_default = []"
    by code_simp+
  have l: "length ys = 11" by (simp add: ys_def)
  have p: "(\<forall>y\<in>set ys. \<not> copy_throws plain y) \<and> length ys \<le> 2 ^ 63 \<and>
      (\<forall>n. n \<le> max 10 (2 * length ys) \<longrightarrow> \<not> alloc_fails plain n)"
    by (simp add: plain_def l)
  have k: "capacity_after 11 = 20" by code_simp
  note th = push_back_capacity[of "[]" vector_default plain 1 ys]
  from th w r c have "\<exists>h' v'. push_back plain [] vector_default 1 = Returns () (h', v') \<and>
      well_formed h' v' \<and> size_v v' = size_v vector_default + 1 \<and>
      contents h' v' = contents [] vector_default @ [1] \<and>
      capacity v' = (if free_ptr vector_default = last_ptr vector_default
                        then (if size_v vector_default = 0 then 10 else 2 * size_v vector_default)
                        else capacity vector_default)"
    by blast
  then have one: "\<exists>h' v'. push_back plain [] vector_default 1 = Returns () (h', v') \<and> well_formed h' v' \<and>
      size_v v' = 1 \<and> contents h' v' = [1] \<and> capacity v' = 10"
    unfolding e by simp
  from th p have "\<exists>h' v'. push_back_all plain ys [] vector_default = Returns () (h', v') \<and>
         well_formed h' v' \<and> size_v v' = length ys \<and> contents h' v' = ys \<and>
         capacity v' = capacity_after (length ys)"
    by blast
  then have many: "\<exists>h' v'. push_back_all plain ys [] vector_default = Returns () (h', v') \<and>
      well_formed h' v' \<and> size_v v' = 11 \<and> contents h' v' = ys \<and> capacity v' = 20"
    unfolding l k .
  show ?thesis using w r c one many unfolding ys_def by blast
qed

text \<open>
  Claim C5 as the spec words it has the capacity grow to \<open>max 10 (size * 2)\<close>.  A
  container filled to its reserved capacity 3 is full at size 3; the next append takes the
  capacity to 6, not to 10.
\<close>

theorem push_back_capacity_counterexample:
  "reserve plain [] vector_default 3 =
     Returns () ([Some [None, None, None]], \<lparr>elem_ptr = Some 0, free_ptr = 0, last_ptr = 3\<rparr>) \<and>
   push_back_all plain [1, 2, 3] [Some [None, None, None]] \<lparr>elem_ptr = Some 0, free_ptr = 0, last_ptr = 3\<rparr> =
     Returns () ([Some [Some 1, Some 2, Some 3]], \<lparr>elem_ptr = Some 0, free_ptr = 3, last_ptr = 3\<rparr>) \<and>
   push_back plain [Some [Some 1, Some 2, Some 3]] \<lparr>elem_ptr = Some 0, free_ptr = 3, last_ptr = 3\<rparr> 4 =
     Returns () ([None, Some [Some 1, Some 2, Some 3, Some 4, None, None]],
                 \<lparr>elem_ptr = Some 1, free_ptr = 4, last_ptr = 6\<rparr>) \<and>
   capacity \<lparr>elem_ptr = Some 1, free_ptr = 4, last_ptr = 6\<rparr> \<noteq>
     max FIRST_EXPAND_CAPACITY (size_v \<lparr>elem_ptr = Some 0, free_ptr = 3, last_ptr = 3\<rparr> * 2)"
  by code_simp

section \<open>Inserting at a position\<close>

lemma nth_insert_at:
  assumes "pos \<le> length xs" "i \<le> length xs"
  shows "(take pos xs @ x # drop pos xs) ! i =
     (if i < pos then xs ! i else if i = pos then x else xs ! (i - 1))"
proof -
  consider "i < pos" | "i = pos" | "pos < i" by linarith
  then show ?thesis
  proof cases
    case 1
    then show ?thesis using assms by (simp add: nth_append)
  next
    case 2
    then show ?thesis using assms by (simp add: nth_append)
  next
    case 3
    then have "(take pos xs @ x # drop pos xs) ! i = (x # drop pos xs) ! (i - pos)"
      using assms by (simp add: nth_append)
    also have "\<dots> = drop pos xs ! (i - pos - 1)" using 3 by (simp add: nth_Cons')
    also have "\<dots> = xs ! (pos + (i - pos - 1))" using assms 3 by (intro nth_drop) simp
    also have "pos + (i - pos - 1) = i - 1" using 3 by simp
    finally show ?thesis using 3 by simp
  qed
qed

lemma emplace_middle:
  assumes "pos < length xs" "0 < k"
  defines "b \<equiv> map Some xs @ replicate k None"
  shows "\<exists>y b1 b2 b3. read b (length xs - 1) = Some y \<and> construct b (length xs) y = Some b1 \<and>
     emplace_shift b1 (Suc (length xs) - 2) pos = Some b2 \<and> assign b2 pos x = Some b3 \<and>
     b3 = map Some (take pos xs @ x # drop pos xs) @ replicate (k - 1) None"
proof -
  let ?f = "length xs"
  have lb: "length b = ?f + k" by (simp add: b_def)
  have live: "b ! i = Some (xs ! i)" if "i < ?f" for i using that by (simp add: b_def nth_append)
  have raw: "b ! i = None" if "?f \<le> i" "i < ?f + k" for i using that by (simp add: b_def nth_append)
  let ?y = "xs ! (?f - 1)"
  have rd: "read b (?f - 1) = Some ?y" using assms(1) live[of "?f - 1"] lb by (simp add: read_def)
  let ?b1 = "b[?f := Some ?y]"
  have c: "construct b ?f ?y = Some ?b1" using assms(2) lb by (simp add: construct_def)
  have l1: "length ?b1 = ?f + k" using lb by simp
  have live1: "\<forall>i. pos \<le> i \<and> i \<le> Suc ?f - 2 \<longrightarrow> ?b1 ! i \<noteq> None"
    using assms(1) live by (auto simp: nth_list_update)
  have "\<exists>b'. emplace_shift ?b1 (Suc ?f - 2) pos = Some b' \<and> length b' = length ?b1 \<and>
     (\<forall>i<length ?b1. b' ! i = (if pos < i \<and> i \<le> Suc ?f - 2 then ?b1 ! (i - 1) else ?b1 ! i))"
    using assms(1,2) l1 live1 by (intro emplace_shift_live) auto
  then obtain b2 where b2: "emplace_shift ?b1 (Suc ?f - 2) pos = Some b2" "length b2 = ?f + k"
    "\<forall>i<?f + k. b2 ! i = (if pos < i \<and> i \<le> Suc ?f - 2 then ?b1 ! (i - 1) else ?b1 ! i)"
    using l1 by auto
  have "b2 ! pos \<noteq> None" using b2(3) assms(1) live[of pos] by (auto simp: nth_list_update)
  then have a: "assign b2 pos x = Some (b2[pos := Some x])"
    using b2(2) assms(1) by (simp add: assign_def)
  define ys where "ys = take pos xs @ x # drop pos xs"
  have ly: "length ys = Suc ?f" using assms(1) by (simp add: ys_def)
  have ny: "ys ! i = (if i < pos then xs ! i else if i = pos then x else xs ! (i - 1))"
    if "i \<le> ?f" for i
    unfolding ys_def using assms(1) that by (intro nth_insert_at) simp_all
  have "b2[pos := Some x] = map Some ys @ replicate (k - 1) None"
  proof (rule nth_equalityI)
    show "length (b2[pos := Some x]) = length (map Some ys @ replicate (k - 1) None)"
      using b2(2) assms(2) ly by simp
  next
    fix i assume "i < length (b2[pos := Some x])"
    then have i: "i < ?f + k" using b2(2) by simp
    let ?r = "map Some ys @ replicate (k - 1) None"
    have r_live: "?r ! j = Some (ys ! j)" if "j \<le> ?f" for j
      using that ly by (simp add: nth_append)
    have same: "b2 ! i = ?b1 ! i" if "\<not> (pos < i \<and> i \<le> Suc ?f - 2)"
      using b2(3)[rule_format, OF i] that by (simp only: if_False)
    have shift: "b2 ! i = ?b1 ! (i - 1)" if "pos < i \<and> i \<le> Suc ?f - 2"
      using b2(3)[rule_format, OF i] that by (simp only: if_True simp_thms)
    consider "i < pos" | "i = pos" | "pos < i" "i \<le> ?f - 1" | "i = ?f" | "?f < i"
      by linarith
    then show "b2[pos := Some x] ! i = ?r ! i"
    proof cases
      case 1
      then have "\<not> (pos < i \<and> i \<le> Suc ?f - 2)" by arith
      then have "b2[pos := Some x] ! i = b ! i" using same 1 assms(1) by (simp add: nth_list_update)
      also have "\<dots> = Some (xs ! i)" using 1 assms(1) live by simp
      also have "\<dots> = ?r ! i" using 1 assms(1) r_live[of i] ny[of i] by simp
      finally show ?thesis .
    next
      case 2
      then show ?thesis using b2(2) assms(1) r_live[of i] ny[of i] by simp
    next
      case 3
      then have "pos < i \<and> i \<le> Suc ?f - 2" by arith
      then have "b2[pos := Some x] ! i = ?b1 ! (i - 1)" using shift 3 by (simp add: nth_list_update)
      also have "\<dots> = Some (xs ! (i - 1))" using 3 live[of "i - 1"] by (simp add: nth_list_update)
      also have "\<dots> = ?r ! i" using 3 assms(1) r_live[of i] ny[of i] by simp
      finally show ?thesis .
    next
      case 4
      then have "\<not> (pos < i \<and> i \<le> Suc ?f - 2)" using assms(1) by arith
      then have "b2[pos := Some x] ! i = ?b1 ! ?f" using same 4 assms(1) by (simp add: nth_list_update)
      also have "\<dots> = Some (xs ! (?f - 1))" using lb assms(2) by simp
      also have "\<dots> = ?r ! i" using 4 assms(1) r_live[of i] ny[of i] by simp
      finally show ?thesis .
    next
      case 5
      then have "\<not> (pos < i \<and> i \<le> Suc ?f - 2)" by arith
      then have "b2[pos := Some x] ! i = b ! i" using same 5 assms(1) by (simp add: nth_list_update)
      also have "\<dots> = None" using 5 i raw by simp
      also have "\<dots> = ?r ! i" using 5 i ly by (simp add: nth_append)
      finally show ?thesis .
    qed
  qed
  then have "b2[pos := Some x] = map Some (take pos xs @ x # drop pos xs) @ replicate (k - 1) None"
    unfolding ys_def .
  with rd c b2(1) a show ?thesis by blast
qed

lemma emplace_out_of_range:
  "position < 0 \<or> int (size_v v) < position \<Longrightarrow> emplace T h v position x = Throws out_of_range (h, v)"
  by (auto simp: emplace_def size_v_def)

lemma emplace_ok:
  assumes "well_formed h v" "can_make_room T h v" "0 \<le> position" "position \<le> int (size_v v)"
  shows "\<exists>h' v'. emplace T h v position x = Returns position (h', v') \<and> well_formed h' v' \<and>
     size_v v' = size_v v + 1 \<and>
     contents h' v' = take (nat position) (contents h v) @ x # drop (nat position) (contents h v)"
proof -
  from check_expand_capacity_ok[OF assms(1,2)] obtain h1 v1 where
    ce: "check_expand_capacity T h v = Returns () (h1, v1)" and w1: "well_formed h1 v1"
    and c1: "contents h1 v1 = contents h v" and f1: "free_ptr v1 = free_ptr v"
    and r1: "free_ptr v1 < last_ptr v1"
    by blast
  let ?xs = "contents h v" and ?pos = "nat position" and ?v' = "v1\<lparr>free_ptr := Suc (free_ptr v1)\<rparr>"
  have len: "length ?xs = free_ptr v1" using length_contents[OF w1] c1 by simp
  have range: "\<not> (position < 0 \<or> position > int (free_ptr v))"
    using assms(3,4) by (simp add: size_v_def)
  show ?thesis
  proof (cases "?pos = free_ptr v1")
    case True
    from append_slot[OF w1 r1, of x] obtain b where
      b: "construct (the_block h1 v1) (free_ptr v1) x = Some b"
      and w2: "well_formed (put_block h1 v1 b) ?v'"
      and c2: "contents (put_block h1 v1 b) ?v' = contents h1 v1 @ [x]"
      by blast
    have "emplace T h v position x = Returns position (put_block h1 v1 b, ?v')"
      using range ce True b assms(3) by (simp add: emplace_def Let_def)
    moreover have "take ?pos ?xs @ x # drop ?pos ?xs = ?xs @ [x]" using True len by simp
    ultimately show ?thesis using w2 c2 c1 f1 by (simp add: size_v_def)
  next
    case False
    then have lt: "?pos < length ?xs" using assms(3,4) f1 len by (simp add: size_v_def)
    have pos_f: "0 < free_ptr v1" using lt len by simp
    from w1 r1 obtain p where p: "elem_ptr v1 = Some p"
      by (cases "elem_ptr v1") (auto simp: well_formed_def)
    have ph: "p < length h1" using wf_elem[OF w1 p] by simp
    let ?k = "last_ptr v1 - free_ptr v1"
    have blk: "the_block h1 v1 = map Some ?xs @ replicate ?k None"
      using the_block_wf[OF w1] c1 by simp
    have k: "0 < ?k" using r1 by simp
    from emplace_middle[OF lt k, of x] obtain y b1 b2 where
      rd: "read (the_block h1 v1) (free_ptr v1 - 1) = Some y"
      and cs: "construct (the_block h1 v1) (free_ptr v1) y = Some b1"
      and sh: "emplace_shift b1 (Suc (free_ptr v1) - 2) ?pos = Some b2"
      and asg: "assign b2 ?pos x = Some (map Some (take ?pos ?xs @ x # drop ?pos ?xs) @ replicate (?k - 1) None)"
      unfolding blk len by blast
    let ?b3 = "map Some (take ?pos ?xs @ x # drop ?pos ?xs) @ replicate (?k - 1) None"
    have "emplace T h v position x = Returns (int ?pos) (put_block h1 v1 ?b3, ?v')"
      using range ce False pos_f rd cs sh asg by (simp add: emplace_def Let_def)
    moreover have "well_formed (h1[p := Some ?b3]) ?v'"
        "contents (h1[p := Some ?b3]) ?v' = take ?pos ?xs @ x # drop ?pos ?xs"
      using wfI[of ?v' p "h1[p := Some ?b3]" "take ?pos ?xs @ x # drop ?pos ?xs" "?k - 1"] p ph len lt r1
      by auto
    ultimately show ?thesis
      using put_block_wf[OF w1 p] assms(3) f1 by (simp add: size_v_def)
  qed
qed

text \<open>
  Claim C6.  A position before \<^verbatim>\<open>begin()\<close> or behind \<^verbatim>\<open>end()\<close> makes \<^verbatim>\<open>emplace\<close> and
  \<^verbatim>\<open>insert\<close> throw \<^verbatim>\<open>std::out_of_range\<close> with nothing changed.  At a position from
  \<^verbatim>\<open>begin()\<close> to \<^verbatim>\<open>end()\<close> of a well-formed container that can make room, they return
  the position of the new element, the size is one more, and the contents are the old ones
  with the value put in at the position: the value is read there, the element that was
  there is one further, and at \<^verbatim>\<open>end()\<close> the value is appended.  The copying
  \<^verbatim>\<open>insert(position, const value_type &)\<close> copies its argument before anything else, so
  both statements are about a value whose copy does not throw.
\<close>

theorem insert_at_position:
  "((position < 0 \<or> int (size_v v) < position) \<longrightarrow>
      emplace T h v position x = Throws out_of_range (h, v) \<and>
      insert_move T h v position x = Throws out_of_range (h, v) \<and>
      (\<not> copy_throws T x \<longrightarrow> insert_v T h v position x = Throws out_of_range (h, v))) \<and>
   (well_formed h v \<and> can_make_room T h v \<and> 0 \<le> position \<and> position \<le> int (size_v v) \<longrightarrow>
      (\<exists>h' v'. emplace T h v position x = Returns position (h', v') \<and>
         insert_move T h v position x = Returns position (h', v') \<and>
         (\<not> copy_throws T x \<longrightarrow> insert_v T h v position x = Returns position (h', v')) \<and>
         well_formed h' v' \<and> size_v v' = size_v v + 1 \<and>
         contents h' v' = take (nat position) (contents h v) @ x # drop (nat position) (contents h v) \<and>
         contents h' v' ! nat position = x \<and>
         (position < int (size_v v) \<longrightarrow>
            contents h' v' ! (nat position + 1) = contents h v ! nat position) \<and>
         (position = int (size_v v) \<longrightarrow> contents h' v' = contents h v @ [x])))"
proof (intro conjI impI)
  assume "position < 0 \<or> int (size_v v) < position"
  then have e: "emplace T h v position x = Throws out_of_range (h, v)"
    by (rule emplace_out_of_range)
  then show "emplace T h v position x = Throws out_of_range (h, v)"
    and "insert_move T h v position x = Throws out_of_range (h, v)"
    by (simp_all add: insert_move_def)
  assume "\<not> copy_throws T x"
  then show "insert_v T h v position x = Throws out_of_range (h, v)"
    using e by (simp add: insert_v_def insert_move_def)
next
  assume a: "well_formed h v \<and> can_make_room T h v \<and> 0 \<le> position \<and> position \<le> int (size_v v)"
  let ?xs = "contents h v" and ?p = "nat position"
  from a emplace_ok[of h v T position x] obtain h' v' where
    r: "emplace T h v position x = Returns position (h', v')" "well_formed h' v'"
      "size_v v' = size_v v + 1" "contents h' v' = take ?p ?xs @ x # drop ?p ?xs"
    by blast
  have len: "length ?xs = size_v v" using a by (simp add: length_contents size_v_def)
  have p: "?p \<le> length ?xs" using a len by auto
  have at_p: "contents h' v' ! ?p = x"
    using nth_insert_at[OF p p, of x] r(4) by simp
  have after: "contents h' v' ! (?p + 1) = ?xs ! ?p" if "position < int (size_v v)"
  proof -
    have "?p + 1 \<le> length ?xs" using that a len by auto
    from nth_insert_at[OF p this, of x] show ?thesis using r(4) by simp
  qed
  have at_end: "contents h' v' = ?xs @ [x]" if "position = int (size_v v)"
    using that r(4) len by auto
  show "\<exists>h' v'. emplace T h v position x = Returns position (h', v') \<and>
         insert_move T h v position x = Returns position (h', v') \<and>
         (\<not> copy_throws T x \<longrightarrow> insert_v T h v position x = Returns position (h', v')) \<and>
         well_formed h' v' \<and> size_v v' = size_v v + 1 \<and>
         contents h' v' = take (nat position) (contents h v) @ x # drop (nat position) (contents h v) \<and>
         contents h' v' ! nat position = x \<and>
         (position < int (size_v v) \<longrightarrow>
            contents h' v' ! (nat position + 1) = contents h v ! nat position) \<and>
         (position = int (size_v v) \<longrightarrow> contents h' v' = contents h v @ [x])"
    using r at_p after at_end
    by (intro exI[of _ h'] exI[of _ v']) (simp add: insert_move_def insert_v_def)
qed

theorem insert_at_position_witness:
  "well_formed h123 v123 \<and> can_make_room plain h123 v123 \<and> \<not> copy_throws plain 9 \<and>
   insert_v plain h123 v123 4 9 = Throws out_of_range (h123, v123) \<and>
   emplace plain h123 v123 (- 1) 9 = Throws out_of_range (h123, v123) \<and>
   (\<exists>h' v'. insert_v plain h123 v123 1 9 = Returns 1 (h', v') \<and> well_formed h' v' \<and>
      size_v v' = 4 \<and> contents h' v' = [1, 9, 2, 3]) \<and>
   (\<exists>h' v'. emplace plain h123 v123 3 9 = Returns 3 (h', v') \<and> well_formed h' v' \<and>
      size_v v' = 4 \<and> contents h' v' = [1, 2, 3, 9])"
proof -
  have w: "well_formed h123 v123" by code_simp
  have r: "can_make_room plain h123 v123" by (simp add: can_make_room_def v123_def)
  have c: "\<not> copy_throws plain 9" by (simp add: plain_def)
  have e: "contents h123 v123 = [1, 2, 3]" "size_v v123 = 3" by code_simp+
  have a: "insert_v plain h123 v123 4 9 = Throws out_of_range (h123, v123)"
    using insert_at_position[of 4 v123 plain h123 9] c by (simp add: e)
  have b: "emplace plain h123 v123 (- 1) 9 = Throws out_of_range (h123, v123)"
    using insert_at_position[of "- 1" v123 plain h123 9] by simp
  have m: "\<exists>h' v'. insert_v plain h123 v123 1 9 = Returns 1 (h', v') \<and> well_formed h' v' \<and>
      size_v v' = 4 \<and> contents h' v' = [1, 9, 2, 3]"
    using insert_at_position[of 1 v123 plain h123 9] w r c by (auto simp: e)
  have z: "\<exists>h' v'. emplace plain h123 v123 3 9 = Returns 3 (h', v') \<and> well_formed h' v' \<and>
      size_v v' = 4 \<and> contents h' v' = [1, 2, 3, 9]"
    using insert_at_position[of 3 v123 plain h123 9] w r by (auto simp: e)
  show ?thesis using w r c a b m z by blast
qed

section \<open>Erasing a range\<close>

lemma wf_put:
  assumes "well_formed h v" "length ys + m = last_ptr v"
  shows "well_formed (put_block h v (map Some ys @ replicate m None)) (v\<lparr>free_ptr := length ys\<rparr>)"
    and "contents (put_block h v (map Some ys @ replicate m None)) (v\<lparr>free_ptr := length ys\<rparr>) = ys"
proof -
  let ?b = "map Some ys @ replicate m None" and ?v' = "v\<lparr>free_ptr := length ys\<rparr>"
  have "well_formed (put_block h v ?b) ?v' \<and> contents (put_block h v ?b) ?v' = ys"
  proof (cases "elem_ptr v")
    case None
    then have "last_ptr v = 0" using wf_null[OF assms(1)] by simp
    then show ?thesis using None assms(2)
      by (simp add: put_block_def well_formed_def contents_def the_block_def)
  next
    case (Some p)
    have ph: "p < length h" using wf_elem[OF assms(1) Some] by simp
    show ?thesis
      using wfI[of ?v' p "h[p := Some ?b]" ys m] Some ph assms(2) put_block_wf[OF assms(1) Some]
      by simp
  qed
  then show "well_formed (put_block h v ?b) ?v'" and "contents (put_block h v ?b) ?v' = ys"
    by simp_all
qed

lemma erase_block:
  fixes k :: nat
  assumes "a \<le> l" "l \<le> length xs"
  defines "b \<equiv> map Some xs @ replicate k None"
  shows "\<exists>b1 b2. std_move b l (length xs) a = Some (a + (length xs - l), b1) \<and>
     destruct_elements b1 (a + (length xs - l)) (length xs) = Some b2 \<and>
     b2 = map Some (take a xs @ drop l xs) @ replicate (k + (l - a)) None"
proof -
  define f where "f = length xs"
  define it where "it = a + (f - l)"
  define g where "g = l - a"
  have ar: "a \<le> it" "it \<le> f" "it + g = f" "l \<le> f" "a + g = l"
    using assms(1,2) by (simp_all add: it_def f_def g_def)
  have lb: "length b = f + k" by (simp add: b_def f_def)
  have live: "b ! i = Some (xs ! i)" if "i < f" for i
    using that by (simp add: b_def f_def nth_append)
  have raw: "b ! i = None" if "f \<le> i" "i < f + k" for i
    using that by (simp add: b_def f_def nth_append)
  have "\<exists>b'. std_move b l f a = Some (a + (f - l), b') \<and> length b' = length b \<and>
     (\<forall>i<length b. b' ! i = (if a \<le> i \<and> i < a + (f - l) then b ! (i + (l - a)) else b ! i))"
    using assms(1) ar(4) lb live by (intro std_move_forward) auto
  then obtain b1 where b1: "std_move b l f a = Some (it, b1)" "length b1 = f + k"
    "\<forall>i<f + k. b1 ! i = (if a \<le> i \<and> i < it then b ! (i + g) else b ! i)"
    unfolding lb it_def g_def by auto
  have moved: "b1 ! i = b ! (i + g)" if "a \<le> i \<and> i < it" "i < f + k" for i
    using b1(3)[rule_format, OF that(2)] that(1) by (simp only: if_True simp_thms)
  have same: "b1 ! i = b ! i" if "\<not> (a \<le> i \<and> i < it)" "i < f + k" for i
    using b1(3)[rule_format, OF that(2)] that(1) by (simp only: if_False)
  have tail_live: "\<forall>i. it \<le> i \<and> i < f \<longrightarrow> b1 ! i \<noteq> None"
  proof (intro allI impI)
    fix i assume i: "it \<le> i \<and> i < f"
    then have "\<not> (a \<le> i \<and> i < it)" and "i < f + k" by arith+
    then have "b1 ! i = b ! i" by (rule same)
    then show "b1 ! i \<noteq> None" using live i by simp
  qed
  have de: "destruct_elements b1 it f = Some (take it b1 @ replicate (f - it) None @ drop f b1)"
    using ar(2) b1(2) tail_live by (intro destruct_elements_live) auto
  define ys where "ys = take a xs @ drop l xs"
  have ly: "length ys = it" using assms(1,2) by (simp add: ys_def it_def f_def)
  have ny: "ys ! i = (if i < a then xs ! i else xs ! (i + g))" if "i < it" for i
  proof (cases "i < a")
    case True
    then show ?thesis using assms(1,2) by (simp add: ys_def nth_append)
  next
    case False
    then have "ys ! i = drop l xs ! (i - a)" using assms(1,2) by (simp add: ys_def nth_append)
    also have "\<dots> = xs ! (l + (i - a))" using assms(2) by (intro nth_drop)
    also have "l + (i - a) = i + g" using False ar(5) by arith
    finally show ?thesis using False by simp
  qed
  define lhs where "lhs = take it b1 @ replicate (f - it) None @ drop f b1"
  define rhs where "rhs = map Some ys @ replicate (k + g) None"
  have ll: "length lhs = f + k" using b1(2) ar(2) by (simp add: lhs_def)
  have lr: "length rhs = f + k" using ly ar(3) by (simp add: rhs_def)
  have l_head: "lhs ! i = b1 ! i" if "i < it" for i
    using that b1(2) ar(2) by (simp add: lhs_def nth_append)
  have l_mid: "lhs ! i = None" if "it \<le> i" "i < f" for i
  proof -
    have "i - it < f - it" using that by arith
    then show ?thesis using that b1(2) ar(2) by (simp add: lhs_def nth_append)
  qed
  have l_tail: "lhs ! i = b1 ! i" if "f \<le> i" "i < f + k" for i
  proof -
    have "length (take it b1 @ replicate (f - it) None) = f" using b1(2) ar(2) by simp
    then have "lhs ! i = drop f b1 ! (i - f)"
      using that unfolding lhs_def append_assoc[symmetric] by (simp add: nth_append del: append_assoc)
    also have "\<dots> = b1 ! (f + (i - f))" using b1(2) by (intro nth_drop) simp
    finally show ?thesis using that by simp
  qed
  have r_head: "rhs ! i = Some (ys ! i)" if "i < it" for i
    using that ly by (simp add: rhs_def nth_append)
  have r_tail: "rhs ! i = None" if "it \<le> i" "i < f + k" for i
    using that ly ar(3) by (simp add: rhs_def nth_append)
  have "lhs = rhs"
  proof (rule nth_equalityI)
    show "length lhs = length rhs" using ll lr by simp
  next
    fix i assume "i < length lhs"
    then have i: "i < f + k" using ll by simp
    consider "i < a" | "a \<le> i" "i < it" | "it \<le> i" "i < f" | "f \<le> i" by linarith
    then show "lhs ! i = rhs ! i"
    proof cases
      case 1
      then have lt: "i < it" using ar(1) by arith
      have "lhs ! i = b1 ! i" using lt by (rule l_head)
      also have "\<dots> = b ! i" using 1 i by (intro same) arith
      also have "\<dots> = Some (xs ! i)" using lt ar(2) by (intro live) arith
      also have "\<dots> = rhs ! i" using r_head[OF lt] ny[OF lt] 1 by simp
      finally show ?thesis .
    next
      case 2
      have "lhs ! i = b1 ! i" using 2(2) by (rule l_head)
      also have "\<dots> = b ! (i + g)" using 2 i by (intro moved) simp_all
      also have "\<dots> = Some (xs ! (i + g))" using 2 ar(3) by (intro live) arith
      also have "\<dots> = rhs ! i" using r_head[OF 2(2)] ny[OF 2(2)] 2(1) by simp
      finally show ?thesis .
    next
      case 3
      have "lhs ! i = None" using 3 by (rule l_mid)
      also have "\<dots> = rhs ! i" using r_tail[OF 3(1) i] by simp
      finally show ?thesis .
    next
      case 4
      have "lhs ! i = b1 ! i" using 4 i by (rule l_tail)
      also have "\<dots> = b ! i" using 4 i ar(2) by (intro same) arith
      also have "\<dots> = None" using 4 i by (rule raw)
      also have "\<dots> = rhs ! i" using 4 ar(2) r_tail[of i] i by simp
      finally show ?thesis .
    qed
  qed
  then show ?thesis
    using b1(1) de unfolding lhs_def rhs_def ys_def it_def f_def g_def by simp
qed

lemma erase_range_ok:
  assumes "well_formed h v" "0 \<le> first" "first \<le> lastp" "lastp \<le> int (size_v v)"
  shows "\<exists>h' v'. erase_range h v first lastp = Returns first (h', v') \<and> well_formed h' v' \<and>
     size_v v' = size_v v - nat (lastp - first) \<and>
     contents h' v' = take (nat first) (contents h v) @ drop (nat lastp) (contents h v) \<and>
     capacity v' = capacity v \<and> elem_ptr v' = elem_ptr v"
proof -
  let ?xs = "contents h v" and ?a = "nat first" and ?l = "nat lastp" and ?k = "last_ptr v - free_ptr v"
  have len: "length ?xs = free_ptr v" and le: "free_ptr v \<le> last_ptr v"
    using assms(1) by (simp_all add: length_contents wf_bounds)
  have al: "?a \<le> ?l" and lf: "?l \<le> length ?xs"
    using assms(2,3,4) len by (auto simp: size_v_def)
  have blk: "the_block h v = map Some ?xs @ replicate ?k None" using assms(1) by (rule the_block_wf)
  let ?ys = "take ?a ?xs @ drop ?l ?xs"
  let ?b2 = "map Some ?ys @ replicate (?k + (?l - ?a)) None"
  from erase_block[OF al lf, of ?k] obtain b1 where
    sm: "std_move (the_block h v) ?l (free_ptr v) ?a = Some (?a + (free_ptr v - ?l), b1)"
    and de: "destruct_elements b1 (?a + (free_ptr v - ?l)) (free_ptr v) = Some ?b2"
    unfolding blk len by blast
  have ly: "length ?ys = ?a + (free_ptr v - ?l)" using al lf len by simp
  let ?v' = "v\<lparr>free_ptr := ?a + (free_ptr v - ?l)\<rparr>"
  have er: "erase_range h v first lastp = Returns first (put_block h v ?b2, ?v')"
    using assms(2,3,4) sm de by (simp add: erase_range_def size_v_def)
  have "length ?ys + (?k + (?l - ?a)) = last_ptr v" using ly al lf len le by arith
  from wf_put[OF assms(1) this] have "well_formed (put_block h v ?b2) ?v'"
    "contents (put_block h v ?b2) ?v' = ?ys"
    unfolding ly by simp_all
  moreover have "size_v ?v' = size_v v - nat (lastp - first)"
    using al lf len assms(2,3) by (simp add: size_v_def nat_diff_distrib)
  ultimately show ?thesis using er by (simp add: capacity_def)
qed

lemma erase_range_passes_check:
  "0 \<le> first \<Longrightarrow> lastp \<le> int (size_v v) \<Longrightarrow> erase_range h v first lastp \<noteq> Throws e s"
  by (simp add: erase_range_def size_v_def split: option.splits prod.splits)

lemma erase_range_out_of_range:
  "first < 0 \<or> int (size_v v) < lastp \<Longrightarrow> erase_range h v first lastp = Throws out_of_range (h, v)"
  by (auto simp: erase_range_def size_v_def)

lemma assign_raw_from:
  assumes "raw_from b f" "assign b d x = Some b'"
  shows "raw_from b' f \<and> length b' = length b \<and> d < f"
proof -
  from assms(2) have d: "d < length b" "b ! d \<noteq> None" and b': "b' = b[d := Some x]"
    by (auto simp: assign_def split: if_splits)
  have df: "d < f" using assms(1) d by (auto simp: raw_from_def intro: leI)
  have "raw_from b' f" using assms(1) df by (auto simp: raw_from_def b' nth_list_update)
  then show ?thesis using df by (simp add: b')
qed

lemma std_move_raw_from:
  "std_move b first lastp d = Some (d', b') \<Longrightarrow> raw_from b f \<Longrightarrow> first \<le> lastp \<Longrightarrow>
   raw_from b' f \<and> length b' = length b \<and> d' = d + (lastp - first) \<and> (first < lastp \<longrightarrow> d' \<le> f)"
proof (induction b first lastp d rule: std_move.induct)
  case (1 b first lastp d)
  show ?case
  proof (cases "first = lastp")
    case True
    then show ?thesis using "1.prems" by (simp add: std_move.simps)
  next
    case False
    from "1.prems"(1) False obtain x b1 where x: "read b first = Some x" and a: "assign b d x = Some b1"
      and r: "std_move b1 (Suc first) lastp (Suc d) = Some (d', b')"
      by (subst (asm) std_move.simps) (auto split: option.splits)
    from assign_raw_from[OF "1.prems"(2) a] have b1: "raw_from b1 f" "length b1 = length b" "d < f"
      by simp_all
    have le: "Suc first \<le> lastp" using False "1.prems"(3) by simp
    from "1.IH"[OF False x a r b1(1) le]
    have ih: "raw_from b' f" "length b' = length b1" "d' = Suc d + (lastp - Suc first)"
      "Suc first < lastp \<longrightarrow> d' \<le> f"
      by blast+
    have "d' \<le> f"
    proof (cases "Suc first < lastp")
      case True
      then show ?thesis using ih(4) by simp
    next
      case False
      then have "lastp = Suc first" using le by simp
      then show ?thesis using ih(3) b1(3) by simp
    qed
    then show ?thesis using ih b1(2) le by simp
  qed
qed

lemma destruct_elements_behind:
  assumes "raw_from b f" "f < d"
  shows "destruct_elements b d f = None"
proof -
  have "destroy b d = None" using assms by (auto simp: destroy_def raw_from_def)
  then show ?thesis using assms(2) by (subst destruct_elements.simps) simp
qed

lemma erase_range_reversed:
  assumes "well_formed h v" "0 \<le> lastp" "lastp < first" "first \<le> int (size_v v)"
  shows "erase_range h v first lastp = Undefined"
proof -
  let ?b = "the_block h v" and ?f = "free_ptr v" and ?a = "nat first" and ?l = "nat lastp"
  have rf: "raw_from ?b ?f"
    using nth_raw[OF assms(1)] length_the_block[OF assms(1)] by (auto simp: raw_from_def)
  have ar: "?l < ?a" "?a \<le> ?f" "?l \<le> ?f" using assms(2,3,4) by (auto simp: size_v_def)
  have chk: "\<not> \<not> (first \<ge> 0 \<and> lastp \<le> int (free_ptr v))" "\<not> lastp < 0"
    using assms(2,3,4) by (auto simp: size_v_def)
  show ?thesis
  proof (cases "std_move ?b ?l ?f ?a")
    case None
    then show ?thesis using chk by (simp add: erase_range_def)
  next
    case (Some r)
    then obtain d' b' where r: "std_move ?b ?l ?f ?a = Some (d', b')" by (cases r) auto
    from std_move_raw_from[OF r rf ar(3)]
    have s: "raw_from b' ?f" "d' = ?a + (?f - ?l)" "?l < ?f \<longrightarrow> d' \<le> ?f" by blast+
    have "?f < d'" using s(2) ar by arith
    moreover have "\<not> ?l < ?f" using s(3) calculation by auto
    ultimately have "destruct_elements b' d' ?f = None"
      using s(1) by (intro destruct_elements_behind)
    then show ?thesis using chk r by (simp add: erase_range_def)
  qed
qed

text \<open>
  Claim C7.  \<^verbatim>\<open>erase(first, last)\<close> is to fail with the out-of-range error unless
  \<^verbatim>\<open>begin() <= first <= last <= end()\<close>.  The code tests \<^verbatim>\<open>first >= cbegin()\<close> and
  \<^verbatim>\<open>last <= cend()\<close> only: with \<open>first\<close> behind \<open>lastp\<close> and both inside the container it
  never throws (\<open>erase_range_passes_check\<close>), and on a well-formed container the outcome
  is undefined behaviour (\<open>erase_range_reversed\<close>).  On \<open>[1, 2, 3]\<close> the range from
  position 2 to position 1 makes \<^verbatim>\<open>std::move\<close> assign to the raw slot behind the last
  element, and so does the range from position 3 to position 0.  On a valid range the code does what the
  claim says (\<open>erase_range_ok\<close>; here the range from 1 to 2), and a range that leaves the
  container on either side is refused (\<open>erase_range_out_of_range\<close>; here 1 to 4).
\<close>

theorem erase_range_first_after_last:
  "erase_range h123 v123 2 1 = Undefined \<and> erase_range h123 v123 3 0 = Undefined \<and>
   erase_range h123 v123 1 2 =
     Returns 1 ([Some ([Some 1, Some 3] @ replicate 8 None)], \<lparr>elem_ptr = Some 0, free_ptr = 2, last_ptr = 10\<rparr>) \<and>
   erase_range h123 v123 1 4 = Throws out_of_range (h123, v123)"
  by code_simp

section \<open>Resizing\<close>

lemma built_h923:
  "insert_v plain h123 v123 1 9 =
     Returns 1 ([Some ([Some 1, Some 9, Some 2, Some 3] @ replicate 6 None)], v123\<lparr>free_ptr := 4\<rparr>)"
  "erase [Some ([Some 1, Some 9, Some 2, Some 3] @ replicate 6 None)] (v123\<lparr>free_ptr := 4\<rparr>) 0 =
     Returns 0 (h923, v923)"
  by code_simp+

lemma uninitialized_copy_end:
  "uninitialized_copy ct src dst d = Returns n b \<Longrightarrow> n = d + length src"
  by (auto simp: uninitialized_copy_def split: result.splits prod.splits option.splits
      dest: copy_construct_loop_end)

lemma move_construct_all_end:
  "move_construct_all src dst d = Some (n, b) \<Longrightarrow> n = d + length src"
proof (induction src arbitrary: dst d b)
  case Nil
  then show ?case by simp
next
  case (Cons s src)
  from Cons.prems obtain x where s: "s = Some x" by (cases s) auto
  from Cons.prems s obtain dst' where "move_construct_all src dst' (Suc d) = Some (n, b)"
    by (auto split: option.splits)
  from Cons.IH[OF this] show ?case by simp
qed

lemma expand_capacity_size:
  assumes "expand_capacity T h v n = Returns u (h', v')"
  shows "free_ptr v' = free_ptr v"
proof (cases "n \<le> capacity v")
  case True
  then show ?thesis using assms by (simp add: expand_capacity_def)
next
  case False
  show ?thesis
  proof (cases "live_range h v")
    case None
    then show ?thesis using assms False
      by (simp add: expand_capacity_def allocate_def split: if_splits)
  next
    case (Some src)
    then have ls: "length src = free_ptr v"
      by (auto simp: live_range_def split: if_splits)
    show ?thesis
    proof (cases "nothrow_move T")
      case True
      then show ?thesis
        using assms False Some ls
        by (auto simp: expand_capacity_def allocate_def
            split: if_splits option.splits prod.splits result.splits dest: move_construct_all_end)
    next
      case nm: False
      then show ?thesis
        using assms False Some ls
        by (auto simp: expand_capacity_def allocate_def
            split: if_splits option.splits prod.splits result.splits dest: uninitialized_copy_end)
    qed
  qed
qed

lemma check_expand_capacity_size:
  "check_expand_capacity T h v = Returns u (h', v') \<Longrightarrow> free_ptr v' = free_ptr v"
  by (auto simp: check_expand_capacity_def split: if_splits dest: expand_capacity_size)

lemma emplace_size:
  assumes "emplace T h v position x = Returns p (h', v')"
  shows "free_ptr v' = Suc (free_ptr v)"
proof -
  from assms obtain h1 v1 where ce: "check_expand_capacity T h v = Returns () (h1, v1)"
    and v': "v' = v1\<lparr>free_ptr := Suc (free_ptr v1)\<rparr>"
    by (auto simp: emplace_def Let_def split: if_splits result.splits option.splits prod.splits)
  then show ?thesis using check_expand_capacity_size[OF ce] by simp
qed

lemma insert_v_size:
  "insert_v T h v position x = Returns p (h', v') \<Longrightarrow> free_ptr v' = Suc (free_ptr v)"
  by (auto simp: insert_v_def insert_move_def split: if_splits dest: emplace_size)

lemma insert_n_loop_size:
  "insert_n_loop T n x h v pos = Returns p (h', v') \<Longrightarrow> free_ptr v' = free_ptr v + n"
proof (induction n arbitrary: h v pos)
  case 0
  then show ?case by simp
next
  case (Suc n)
  then show ?case
    by (auto split: result.splits prod.splits dest!: insert_v_size)
qed

lemma insert_n_size:
  "insert_n T h v position n x = Returns p (h', v') \<Longrightarrow> free_ptr v' = free_ptr v + unat n"
  by (auto simp: insert_n_def split: if_splits dest: insert_n_loop_size)

lemma resize_grow_size:
  assumes "size_v v < unat n" "resize T h v n x = Returns u (h', v')"
  shows "size_v v' = size_v v + unat (word_of_nat (size_v v) - n :: size_type)"
  using assms
  by (auto simp: resize_def size_v_def split: result.splits dest: insert_n_size)

lemma resize_shrink:
  assumes "well_formed h v" "unat n < size_v v"
  shows "\<exists>h' v'. resize T h v n x = Returns () (h', v') \<and> well_formed h' v' \<and>
     size_v v' = unat n \<and> contents h' v' = take (unat n) (contents h v) \<and> capacity v' = capacity v"
proof -
  define m where "m = unat n"
  define a where "a = int m"
  define e where "e = int (free_ptr v)"
  have m: "m < free_ptr v" using assms(2) by (simp add: m_def size_v_def)
  have len: "length (contents h v) = free_ptr v" using assms(1) by (rule length_contents)
  have a: "0 \<le> a" "a \<le> e" "e \<le> int (size_v v)" "nat a = m" "nat e = free_ptr v"
    "nat (e - a) = free_ptr v - m"
    using m by (simp_all add: a_def e_def size_v_def nat_diff_distrib)
  from erase_range_ok[OF assms(1) a(1,2,3)] obtain h' v' where
    r: "erase_range h v a e = Returns a (h', v')" "well_formed h' v'"
    "size_v v' = size_v v - nat (e - a)"
    "contents h' v' = take (nat a) (contents h v) @ drop (nat e) (contents h v)"
    "capacity v' = capacity v"
    by blast
  have "resize T h v n x =
      (case erase_range h v a e of Returns it s \<Rightarrow> Returns () s | Throws e s \<Rightarrow> Throws e s
       | Undefined \<Rightarrow> Undefined)"
    using assms(2) unfolding resize_def a_def e_def m_def by (simp only: if_True)
  then have "resize T h v n x = Returns () (h', v')" using r(1) by simp
  moreover have "size_v v' = m" using r(3) a(6) m by (simp add: size_v_def)
  moreover have "contents h' v' = take m (contents h v)" using r(4) a(4,5) len by simp
  ultimately show ?thesis using r(2,5) unfolding m_def by blast
qed

lemma resize_same:
  "unat n = size_v v \<Longrightarrow> resize T h v n x = Returns () (h, v)"
  by (simp add: resize_def)

lemma grow_count: "unat (word_of_nat (size_v v923) - 5 :: size_type) = 18446744073709551614"
  by (simp add: size_v_def v923_def)

lemma resize_never_five:
  "\<not> (\<exists>h' v'. resize T h923 v923 5 0 = Returns () (h', v') \<and> size_v v' = 5)"
proof
  assume "\<exists>h' v'. resize T h923 v923 5 0 = Returns () (h', v') \<and> size_v v' = 5"
  then obtain h' v' where r: "resize T h923 v923 5 0 = Returns () (h', v')" and s: "size_v v' = 5"
    by blast
  have "size_v v923 < unat (5 :: size_type)" by (simp add: size_v_def v923_def)
  from resize_grow_size[OF this r] have "size_v v' = size_v v923 + 18446744073709551614"
    by (simp only: grow_count)
  with s show False by (simp add: size_v_def v923_def)
qed

lemma h923_slots:
  "h923 = [Some [Some 9, Some 2, Some 3, None, None, None, None, None, None, None]]"
  by code_simp

lemma insert_n_loop_step:
  assumes "0 < n" "insert_v T h v pos x = Returns pos' (h', v')"
  shows "insert_n_loop T n x h v pos = insert_n_loop T (n - 1) x h' v' pos'"
  using assms by (cases n) simp_all

lemma insert_n_loop_throws:
  assumes "0 < n" "insert_v T h v pos x = Throws e s"
  shows "insert_n_loop T n x h v pos = Throws e s"
  using assms by (cases n) simp_all

lemma small_steps:
  "insert_v small [Some [Some 9, Some 2, Some 3, None, None, None, None, None, None, None]] \<lparr>elem_ptr = Some 0, free_ptr = 3, last_ptr = 10\<rparr> 3 0 =
     Returns 3 ([Some [Some 9, Some 2, Some 3, Some 0, None, None, None, None, None, None]], \<lparr>elem_ptr = Some 0, free_ptr = 4, last_ptr = 10\<rparr>)"
  "insert_v small [Some [Some 9, Some 2, Some 3, Some 0, None, None, None, None, None, None]] \<lparr>elem_ptr = Some 0, free_ptr = 4, last_ptr = 10\<rparr> 3 0 =
     Returns 3 ([Some [Some 9, Some 2, Some 3, Some 0, Some 0, None, None, None, None, None]], \<lparr>elem_ptr = Some 0, free_ptr = 5, last_ptr = 10\<rparr>)"
  "insert_v small [Some [Some 9, Some 2, Some 3, Some 0, Some 0, None, None, None, None, None]] \<lparr>elem_ptr = Some 0, free_ptr = 5, last_ptr = 10\<rparr> 3 0 =
     Returns 3 ([Some [Some 9, Some 2, Some 3, Some 0, Some 0, Some 0, None, None, None, None]], \<lparr>elem_ptr = Some 0, free_ptr = 6, last_ptr = 10\<rparr>)"
  "insert_v small [Some [Some 9, Some 2, Some 3, Some 0, Some 0, Some 0, None, None, None, None]] \<lparr>elem_ptr = Some 0, free_ptr = 6, last_ptr = 10\<rparr> 3 0 =
     Returns 3 ([Some [Some 9, Some 2, Some 3, Some 0, Some 0, Some 0, Some 0, None, None, None]], \<lparr>elem_ptr = Some 0, free_ptr = 7, last_ptr = 10\<rparr>)"
  "insert_v small [Some [Some 9, Some 2, Some 3, Some 0, Some 0, Some 0, Some 0, None, None, None]] \<lparr>elem_ptr = Some 0, free_ptr = 7, last_ptr = 10\<rparr> 3 0 =
     Returns 3 ([Some [Some 9, Some 2, Some 3, Some 0, Some 0, Some 0, Some 0, Some 0, None, None]], \<lparr>elem_ptr = Some 0, free_ptr = 8, last_ptr = 10\<rparr>)"
  "insert_v small [Some [Some 9, Some 2, Some 3, Some 0, Some 0, Some 0, Some 0, Some 0, None, None]] \<lparr>elem_ptr = Some 0, free_ptr = 8, last_ptr = 10\<rparr> 3 0 =
     Returns 3 ([Some [Some 9, Some 2, Some 3, Some 0, Some 0, Some 0, Some 0, Some 0, Some 0, None]], \<lparr>elem_ptr = Some 0, free_ptr = 9, last_ptr = 10\<rparr>)"
  "insert_v small [Some [Some 9, Some 2, Some 3, Some 0, Some 0, Some 0, Some 0, Some 0, Some 0, None]] \<lparr>elem_ptr = Some 0, free_ptr = 9, last_ptr = 10\<rparr> 3 0 =
     Returns 3 ([Some [Some 9, Some 2, Some 3, Some 0, Some 0, Some 0, Some 0, Some 0, Some 0, Some 0]], \<lparr>elem_ptr = Some 0, free_ptr = 10, last_ptr = 10\<rparr>)"
  "insert_v small [Some [Some 9, Some 2, Some 3, Some 0, Some 0, Some 0, Some 0, Some 0, Some 0, Some 0]] \<lparr>elem_ptr = Some 0, free_ptr = 10, last_ptr = 10\<rparr> 3 0 =
     Throws bad_alloc ([Some [Some 9, Some 2, Some 3, Some 0, Some 0, Some 0, Some 0, Some 0, Some 0, Some 0]], \<lparr>elem_ptr = Some 0, free_ptr = 10, last_ptr = 10\<rparr>)"
  by code_simp+

lemma small_run:
  "resize small h923 v923 5 0 =
     Throws bad_alloc ([Some [Some 9, Some 2, Some 3, Some 0, Some 0, Some 0, Some 0, Some 0, Some 0, Some 0]], \<lparr>elem_ptr = Some 0, free_ptr = 10, last_ptr = 10\<rparr>)"
proof -
  have "resize small h923 v923 5 0 =
      (case insert_n_loop small 18446744073709551614 0 [Some [Some 9, Some 2, Some 3, None, None, None, None, None, None, None]] \<lparr>elem_ptr = Some 0, free_ptr = 3, last_ptr = 10\<rparr> 3 of
         Returns it s \<Rightarrow> Returns () s | Throws e s \<Rightarrow> Throws e s | Undefined \<Rightarrow> Undefined)"
    unfolding resize_def insert_n_def grow_count by (simp add: size_v_def v923_def h923_slots)
  also have "insert_n_loop small 18446744073709551614 0 [Some [Some 9, Some 2, Some 3, None, None, None, None, None, None, None]] \<lparr>elem_ptr = Some 0, free_ptr = 3, last_ptr = 10\<rparr> 3 =
      insert_n_loop small 18446744073709551613 0 [Some [Some 9, Some 2, Some 3, Some 0, None, None, None, None, None, None]] \<lparr>elem_ptr = Some 0, free_ptr = 4, last_ptr = 10\<rparr> 3"
    by (subst insert_n_loop_step[OF _ small_steps(1)]) simp_all
  also have "insert_n_loop small 18446744073709551613 0 [Some [Some 9, Some 2, Some 3, Some 0, None, None, None, None, None, None]] \<lparr>elem_ptr = Some 0, free_ptr = 4, last_ptr = 10\<rparr> 3 =
      insert_n_loop small 18446744073709551612 0 [Some [Some 9, Some 2, Some 3, Some 0, Some 0, None, None, None, None, None]] \<lparr>elem_ptr = Some 0, free_ptr = 5, last_ptr = 10\<rparr> 3"
    by (subst insert_n_loop_step[OF _ small_steps(2)]) simp_all
  also have "insert_n_loop small 18446744073709551612 0 [Some [Some 9, Some 2, Some 3, Some 0, Some 0, None, None, None, None, None]] \<lparr>elem_ptr = Some 0, free_ptr = 5, last_ptr = 10\<rparr> 3 =
      insert_n_loop small 18446744073709551611 0 [Some [Some 9, Some 2, Some 3, Some 0, Some 0, Some 0, None, None, None, None]] \<lparr>elem_ptr = Some 0, free_ptr = 6, last_ptr = 10\<rparr> 3"
    by (subst insert_n_loop_step[OF _ small_steps(3)]) simp_all
  also have "insert_n_loop small 18446744073709551611 0 [Some [Some 9, Some 2, Some 3, Some 0, Some 0, Some 0, None, None, None, None]] \<lparr>elem_ptr = Some 0, free_ptr = 6, last_ptr = 10\<rparr> 3 =
      insert_n_loop small 18446744073709551610 0 [Some [Some 9, Some 2, Some 3, Some 0, Some 0, Some 0, Some 0, None, None, None]] \<lparr>elem_ptr = Some 0, free_ptr = 7, last_ptr = 10\<rparr> 3"
    by (subst insert_n_loop_step[OF _ small_steps(4)]) simp_all
  also have "insert_n_loop small 18446744073709551610 0 [Some [Some 9, Some 2, Some 3, Some 0, Some 0, Some 0, Some 0, None, None, None]] \<lparr>elem_ptr = Some 0, free_ptr = 7, last_ptr = 10\<rparr> 3 =
      insert_n_loop small 18446744073709551609 0 [Some [Some 9, Some 2, Some 3, Some 0, Some 0, Some 0, Some 0, Some 0, None, None]] \<lparr>elem_ptr = Some 0, free_ptr = 8, last_ptr = 10\<rparr> 3"
    by (subst insert_n_loop_step[OF _ small_steps(5)]) simp_all
  also have "insert_n_loop small 18446744073709551609 0 [Some [Some 9, Some 2, Some 3, Some 0, Some 0, Some 0, Some 0, Some 0, None, None]] \<lparr>elem_ptr = Some 0, free_ptr = 8, last_ptr = 10\<rparr> 3 =
      insert_n_loop small 18446744073709551608 0 [Some [Some 9, Some 2, Some 3, Some 0, Some 0, Some 0, Some 0, Some 0, Some 0, None]] \<lparr>elem_ptr = Some 0, free_ptr = 9, last_ptr = 10\<rparr> 3"
    by (subst insert_n_loop_step[OF _ small_steps(6)]) simp_all
  also have "insert_n_loop small 18446744073709551608 0 [Some [Some 9, Some 2, Some 3, Some 0, Some 0, Some 0, Some 0, Some 0, Some 0, None]] \<lparr>elem_ptr = Some 0, free_ptr = 9, last_ptr = 10\<rparr> 3 =
      insert_n_loop small 18446744073709551607 0 [Some [Some 9, Some 2, Some 3, Some 0, Some 0, Some 0, Some 0, Some 0, Some 0, Some 0]] \<lparr>elem_ptr = Some 0, free_ptr = 10, last_ptr = 10\<rparr> 3"
    by (subst insert_n_loop_step[OF _ small_steps(7)]) simp_all
  also have "insert_n_loop small 18446744073709551607 0 [Some [Some 9, Some 2, Some 3, Some 0, Some 0, Some 0, Some 0, Some 0, Some 0, Some 0]] \<lparr>elem_ptr = Some 0, free_ptr = 10, last_ptr = 10\<rparr> 3 =
      Throws bad_alloc ([Some [Some 9, Some 2, Some 3, Some 0, Some 0, Some 0, Some 0, Some 0, Some 0, Some 0]], \<lparr>elem_ptr = Some 0, free_ptr = 10, last_ptr = 10\<rparr>)"
    by (rule insert_n_loop_throws[OF _ small_steps(8)]) simp
  finally show ?thesis by simp
qed

text \<open>
  Claim C2.  \<^verbatim>\<open>resize\<close> to a larger size is to append \<open>new_size - size\<close> copies of the
  value.  The code hands \<^verbatim>\<open>insert\<close> the count \<^verbatim>\<open>size() - new_size\<close>, which for a larger
  \<open>new_size\<close> wraps around: on \<open>[9, 2, 3]\<close>, \<^verbatim>\<open>resize(5, 0)\<close> asks for
  \<open>2 ^ 64 - 2\<close> copies.  Whatever the allocator and the element type, the call cannot
  return with size 5 (a call that returns has added that many elements,
  \<open>resize_grow_size\<close>); with an allocator that has no block above 10 elements it fills
  the block with seven copies and throws \<^verbatim>\<open>std::bad_alloc\<close>.  Shrinking and resizing to the
  same size do what the claim says (\<open>resize_shrink\<close>, \<open>resize_same\<close>): \<^verbatim>\<open>resize(2, 0)\<close>
  leaves \<open>[9, 2]\<close>.
\<close>

theorem resize_growth_count_reversed:
  "(\<forall>T. \<not> (\<exists>h' v'. resize T h923 v923 5 0 = Returns () (h', v') \<and> size_v v' = 5)) \<and>
   resize small h923 v923 5 0 =
     Throws bad_alloc
       ([Some [Some 9, Some 2, Some 3, Some 0, Some 0, Some 0, Some 0, Some 0, Some 0, Some 0]],
        \<lparr>elem_ptr = Some 0, free_ptr = 10, last_ptr = 10\<rparr>) \<and>
   resize small h923 v923 2 0 =
     Returns ()
       ([Some [Some 9, Some 2, None, None, None, None, None, None, None, None]],
        \<lparr>elem_ptr = Some 0, free_ptr = 2, last_ptr = 10\<rparr>)"
proof (intro conjI allI)
  fix T :: "int traits"
  show "\<not> (\<exists>h' v'. resize T h923 v923 5 0 = Returns () (h', v') \<and> size_v v' = 5)"
    by (rule resize_never_five)
next
  show "resize small h923 v923 5 0 =
     Throws bad_alloc
       ([Some [Some 9, Some 2, Some 3, Some 0, Some 0, Some 0, Some 0, Some 0, Some 0, Some 0]],
        \<lparr>elem_ptr = Some 0, free_ptr = 10, last_ptr = 10\<rparr>)"
    by (rule small_run)
next
  show "resize small h923 v923 2 0 =
     Returns ()
       ([Some [Some 9, Some 2, None, None, None, None, None, None, None, None]],
        \<lparr>elem_ptr = Some 0, free_ptr = 2, last_ptr = 10\<rparr>)"
    by code_simp
qed

section \<open>Copy assignment\<close>

lemma well_formed_default: "well_formed h vector_default" "contents h vector_default = []"
  by (simp_all add: well_formed_def vector_default_def contents_def)

lemma vector_copy_empty:
  assumes "well_formed h other" "contents h other = []"
  shows "vector_copy T h other = Returns () (h, vector_default)"
  using assms by (simp add: vector_copy_def live_range_wf create_elements_range_def)

lemma vector_copy_alloc_fails:
  assumes "well_formed h other" "contents h other \<noteq> []" "alloc_fails T (size_v other)"
  shows "vector_copy T h other = Throws bad_alloc (h, vector_default)"
  using assms length_contents[OF assms(1)]
  by (simp add: vector_copy_def live_range_wf create_elements_range_def allocate_def size_v_def)

lemma vector_copy_copy_fails:
  assumes "well_formed h other" "\<not> alloc_fails T (size_v other)"
    "\<exists>x\<in>set (contents h other). copy_throws T x"
  shows "vector_copy T h other = Throws copy_failure (h @ [None], vector_default)"
proof -
  let ?xs = "contents h other" and ?n = "free_ptr other"
  have len: "length ?xs = ?n" using assms(1) by (rule length_contents)
  have ne: "?xs \<noteq> []" using assms(3) by auto
  have uc: "uninitialized_copy (copy_throws T) (map Some ?xs) (replicate ?n None) 0 =
      Throws copy_failure (replicate ?n None)"
    using assms(3) len by (intro uninitialized_copy_throw) simp_all
  have de: "deallocate (h @ [Some (replicate ?n None)]) (length h) ?n = Some (h @ [None])"
    by (simp add: deallocate_def block_at_def)
  show ?thesis
    using assms(2) ne len uc de
    by (simp add: vector_copy_def live_range_wf[OF assms(1)] create_elements_range_def allocate_def size_v_def)
qed

lemma vector_copy_ok:
  assumes "well_formed h other" "contents h other \<noteq> []" "\<not> alloc_fails T (size_v other)"
    "\<forall>x\<in>set (contents h other). \<not> copy_throws T x"
  shows "vector_copy T h other =
     Returns () (h @ [Some (map Some (contents h other))],
                 \<lparr>elem_ptr = Some (length h), free_ptr = free_ptr other, last_ptr = free_ptr other\<rparr>)"
proof -
  let ?xs = "contents h other" and ?n = "free_ptr other"
  have len: "length ?xs = ?n" using assms(1) by (rule length_contents)
  have "uninitialized_copy (copy_throws T) (map Some ?xs) (replicate ?n None) 0 =
      Returns (0 + length ?xs) (take 0 (replicate ?n None) @ map Some ?xs @ drop (0 + length ?xs) (replicate ?n None))"
    using assms(4) len by (intro uninitialized_copy_ok) simp_all
  then have uc: "uninitialized_copy (copy_throws T) (map Some ?xs) (replicate ?n None) 0 =
      Returns ?n (map Some ?xs)"
    using len by simp
  show ?thesis
    using assms(2,3) len uc
    by (simp add: vector_copy_def live_range_wf[OF assms(1)] create_elements_range_def allocate_def
        size_v_def vector_default_def)
qed

lemma swap_v_whole: "swap_v (this :: vector) c = (c, this)"
  by (cases this; cases c) (simp add: swap_v_def)

lemma block_at_released:
  "block_at (released h a) p = (if a = Some p then None else block_at h p)"
  by (cases a) (auto simp: released_def block_at_def)

lemma length_released: "length (released h a) = length h"
  by (cases a) (simp_all add: released_def)

lemma copy_assign_fails:
  assumes "well_formed h this" "well_formed h other" "contents h other \<noteq> []"
    "alloc_fails T (size_v other) \<or> (\<exists>x\<in>set (contents h other). copy_throws T x)"
  shows "\<exists>e h'. copy_assign T h this other = Throws e (h', this) \<and> well_formed h' this \<and>
     contents h' this = contents h this \<and> (\<forall>p. p < length h \<longrightarrow> block_at h' p = block_at h p)"
proof (cases "alloc_fails T (size_v other)")
  case True
  then have "copy_assign T h this other = Throws bad_alloc (h, this)"
    using vector_copy_alloc_fails[OF assms(2,3)] by (simp add: copy_assign_def)
  then show ?thesis using assms(1) by blast
next
  case False
  with assms(4) have "\<exists>x\<in>set (contents h other). copy_throws T x" by blast
  from vector_copy_copy_fails[OF assms(2) False this]
  have "copy_assign T h this other = Throws copy_failure (h @ [None], this)"
    by (simp add: copy_assign_def)
  moreover have "well_formed (h @ [None]) this" "contents (h @ [None]) this = contents h this"
    using wf_append[OF assms(1)] by simp_all
  moreover have "\<forall>p. p < length h \<longrightarrow> block_at (h @ [None]) p = block_at h p"
    by (simp add: block_at_append)
  ultimately show ?thesis by blast
qed

lemma copy_assign_ok:
  assumes "well_formed h this" "well_formed h other"
    "\<not> (contents h other \<noteq> [] \<and>
         (alloc_fails T (size_v other) \<or> (\<exists>x\<in>set (contents h other). copy_throws T x)))"
  shows "\<exists>h' this'. copy_assign T h this other = Returns () (h', this') \<and> well_formed h' this' \<and>
     contents h' this' = contents h other \<and> size_v this' = size_v other \<and>
     size_v this' \<le> capacity this' \<and>
     (\<forall>p. elem_ptr this = Some p \<longrightarrow> block_at h' p = None) \<and>
     (\<forall>p. p < length h \<and> elem_ptr this \<noteq> Some p \<longrightarrow> block_at h' p = block_at h p)"
proof (cases "contents h other = []")
  case True
  let ?h' = "released h (elem_ptr this)"
  have z: "size_v other = 0" using length_contents[OF assms(2)] True by (simp add: size_v_def)
  have "copy_assign T h this other = Returns () (?h', vector_default)"
    using vector_copy_empty[OF assms(2) True] clear_elements_wf[OF assms(1)]
    by (simp add: copy_assign_def swap_v_whole)
  moreover have "well_formed ?h' vector_default" "contents ?h' vector_default = contents h other"
    using True by (simp_all add: well_formed_default)
  moreover have "size_v vector_default = size_v other" "size_v vector_default \<le> capacity vector_default"
    using z by (simp_all add: size_v_def capacity_def vector_default_def)
  ultimately show ?thesis by (auto simp: block_at_released)
next
  case False
  with assms(3) have al: "\<not> alloc_fails T (size_v other)"
    and ct: "\<forall>x\<in>set (contents h other). \<not> copy_throws T x" by blast+
  let ?xs = "contents h other" and ?n = "free_ptr other"
  let ?c = "\<lparr>elem_ptr = Some (length h), free_ptr = ?n, last_ptr = ?n\<rparr>"
  let ?h1 = "h @ [Some (map Some ?xs)]"
  let ?h' = "released h (elem_ptr this) @ [Some (map Some ?xs)]"
  have len: "length ?xs = ?n" using assms(2) by (rule length_contents)
  have w1: "well_formed ?h1 this" using assms(1) by (rule wf_append)
  have ce: "clear_elements ?h1 this = Some (?h', \<lparr>elem_ptr = None, free_ptr = 0, last_ptr = 0\<rparr>)"
    using clear_elements_wf[OF w1] released_append[OF assms(1)] by simp
  have ca: "copy_assign T h this other = Returns () (?h', ?c)"
    using vector_copy_ok[OF assms(2) False al ct] ce by (simp add: copy_assign_def swap_v_whole)
  have lr: "length (released h (elem_ptr this)) = length h" by (rule length_released)
  have "well_formed ?h' ?c \<and> contents ?h' ?c = ?xs"
    using wfI[of ?c "length h" ?h' ?xs 0] len lr by (simp add: nth_append)
  moreover have "\<forall>p. elem_ptr this = Some p \<longrightarrow> block_at ?h' p = None"
  proof (intro allI impI)
    fix p assume p: "elem_ptr this = Some p"
    then have "p < length h" using wf_elem[OF assms(1) p] by simp
    then show "block_at ?h' p = None"
      using p lr block_at_released[of h "elem_ptr this" p] by (simp add: block_at_append)
  qed
  moreover have "\<forall>p. p < length h \<and> elem_ptr this \<noteq> Some p \<longrightarrow> block_at ?h' p = block_at h p"
    using lr block_at_released[of h "elem_ptr this"] by (auto simp: block_at_append)
  ultimately show ?thesis using ca by (auto simp: size_v_def capacity_def)
qed

text \<open>
  Claim C9.  \<^verbatim>\<open>operator=(const vector &)\<close> copies \<open>other\<close> into a temporary, swaps and
  destroys the temporary; the model is that sequence (\<open>copy_assign\<close>).  For well-formed
  \<open>this\<close> and \<open>other\<close>, which for the self-assignment \<^verbatim>\<open>c = c\<close> are one and the same
  object:

  \<^item> when the copy fails (the allocator has no block of the size of \<open>other\<close>, or the copy of
    an element throws) the exception is passed on and \<open>this\<close> is untouched: the same
    pointers, the same contents, no block of the store changed;
  \<^item> otherwise the call returns, \<open>this\<close> is well formed with the contents and the size of
    \<open>other\<close> and a capacity of at least the size, its former block has been released
    (once: a second release would be undefined behaviour, not a return) and every other
    block is as before.
\<close>

theorem copy_assign_copy_and_swap:
  assumes "well_formed h this" "well_formed h other"
  shows "if contents h other \<noteq> [] \<and>
          (alloc_fails T (size_v other) \<or> (\<exists>x\<in>set (contents h other). copy_throws T x))
     then (\<exists>e h'. copy_assign T h this other = Throws e (h', this) \<and> well_formed h' this \<and>
            contents h' this = contents h this \<and>
            (\<forall>p. p < length h \<longrightarrow> block_at h' p = block_at h p))
     else (\<exists>h' this'. copy_assign T h this other = Returns () (h', this') \<and>
            well_formed h' this' \<and> contents h' this' = contents h other \<and>
            size_v this' = size_v other \<and> size_v this' \<le> capacity this' \<and>
            (\<forall>p. elem_ptr this = Some p \<longrightarrow> block_at h' p = None) \<and>
            (\<forall>p. p < length h \<and> elem_ptr this \<noteq> Some p \<longrightarrow> block_at h' p = block_at h p))"
proof (cases "contents h other \<noteq> [] \<and>
          (alloc_fails T (size_v other) \<or> (\<exists>x\<in>set (contents h other). copy_throws T x))")
  case True
  then have "\<exists>e h'. copy_assign T h this other = Throws e (h', this) \<and> well_formed h' this \<and>
            contents h' this = contents h this \<and>
            (\<forall>p. p < length h \<longrightarrow> block_at h' p = block_at h p)"
    using copy_assign_fails[OF assms, of T] by blast
  then show ?thesis unfolding if_P[OF True] .
next
  case False
  show ?thesis unfolding if_not_P[OF False] using assms False by (rule copy_assign_ok)
qed

theorem copy_assign_copy_and_swap_witness:
  "well_formed h123 v123 \<and>
   (\<exists>h' c'. copy_assign plain h123 v123 v123 = Returns () (h', c') \<and> well_formed h' c' \<and>
      contents h' c' = [1, 2, 3] \<and> size_v c' = 3 \<and> size_v c' \<le> capacity c' \<and>
      block_at h' 0 = None) \<and>
   (\<exists>e h'. copy_assign fragile h123 v123 v123 = Throws e (h', v123) \<and> well_formed h' v123 \<and>
      contents h' v123 = [1, 2, 3] \<and> block_at h' 0 = block_at h123 0)"
proof -
  have w: "well_formed h123 v123" by code_simp
  have e: "contents h123 v123 = [1, 2, 3]" "size_v v123 = 3" "elem_ptr v123 = Some 0" by code_simp+
  have ok: "\<not> ([1, 2, 3 :: int] \<noteq> [] \<and> (alloc_fails plain 3 \<or> (\<exists>x\<in>set [1, 2, 3 :: int]. copy_throws plain x)))"
    by (simp add: plain_def)
  have bad: "[1, 2, 3 :: int] \<noteq> [] \<and> (alloc_fails fragile 3 \<or> (\<exists>x\<in>set [1, 2, 3 :: int]. copy_throws fragile x))"
    by (simp add: fragile_def)
  have l: "(0 :: nat) < length h123" by code_simp
  from copy_assign_copy_and_swap[OF w w, of plain]
  have "\<exists>h' this'. copy_assign plain h123 v123 v123 = Returns () (h', this') \<and>
            well_formed h' this' \<and> contents h' this' = [1, 2, 3] \<and>
            size_v this' = 3 \<and> size_v this' \<le> capacity this' \<and>
            (\<forall>p. Some 0 = Some p \<longrightarrow> block_at h' p = None) \<and>
            (\<forall>p. p < length h123 \<and> Some 0 \<noteq> Some p \<longrightarrow> block_at h' p = block_at h123 p)"
    unfolding e if_not_P[OF ok] .
  then have a: "\<exists>h' c'. copy_assign plain h123 v123 v123 = Returns () (h', c') \<and> well_formed h' c' \<and>
      contents h' c' = [1, 2, 3] \<and> size_v c' = 3 \<and> size_v c' \<le> capacity c' \<and>
      block_at h' 0 = None"
    by blast
  from copy_assign_copy_and_swap[OF w w, of fragile]
  have "\<exists>e h'. copy_assign fragile h123 v123 v123 = Throws e (h', v123) \<and> well_formed h' v123 \<and>
            contents h' v123 = [1, 2, 3] \<and>
            (\<forall>p. p < length h123 \<longrightarrow> block_at h' p = block_at h123 p)"
    unfolding e if_P[OF bad] .
  then have b: "\<exists>e h'. copy_assign fragile h123 v123 v123 = Throws e (h', v123) \<and> well_formed h' v123 \<and>
      contents h' v123 = [1, 2, 3] \<and> block_at h' 0 = block_at h123 0"
    using l by blast
  show ?thesis using w a b by blast
qed

lemma self_assignment_runs:
  "copy_assign plain h123 v123 v123 =
     Returns () ([None, Some [Some 1, Some 2, Some 3]], \<lparr>elem_ptr = Some 1, free_ptr = 3, last_ptr = 3\<rparr>)"
  "copy_assign fragile h123 v123 v123 = Throws copy_failure (h123 @ [None], v123)"
  by code_simp+

end
